theory Spec2Isabelle
  imports Main "HOL-Library.Multiset"
begin

section \<open>In-place rotation of a square matrix (rotate\_matrix.py)\<close>

text \<open>
  The development embeds the three functions of \<^verbatim>\<open>rotate_matrix.py\<close> that carry the
  algorithm: \<^verbatim>\<open>odd\<close>, \<^verbatim>\<open>get_cycle\<close> and \<^verbatim>\<open>rotate_matrix\<close>. Python integers are
  \<^typ>\<open>int\<close>; a nested list is a list of lists; a subscript is checked the way Python
  checks it (a negative subscript counts from the end, anything else outside the list raises
  \<^verbatim>\<open>IndexError\<close>), and a raised exception is the \<open>Inl\<close> branch of a sum. Besides
  \<^verbatim>\<open>IndexError\<close> there are \<^verbatim>\<open>OverflowError\<close>, which the division \<^verbatim>\<open>dim/2\<close> raises when
  the quotient is beyond the floating-point numbers, and \<^verbatim>\<open>UnboundLocalError\<close>, which reading
  a local variable raises before its first assignment.

  The matrix is mutated in place by the source; the model passes the matrix through every
  assignment and returns the updated value. The rows of a matrix are taken to be separate list
  objects, as \<^verbatim>\<open>create_matrix\<close> and \<^verbatim>\<open>generate_matrix\<close> build them.
\<close>

subsection \<open>Python subscripts, ranges and loops\<close>

datatype error = IndexError | OverflowError | UnboundLocalError

type_synonym coord = "int \<times> int"

type_synonym 'a matrix = "'a list list"

definition bind_res :: "error + 'a \<Rightarrow> ('a \<Rightarrow> error + 'b) \<Rightarrow> error + 'b" where
  "bind_res m f = (case m of Inl e \<Rightarrow> Inl e | Inr x \<Rightarrow> f x)"

text \<open>The position a subscript \<open>i\<close> denotes in a list of \<open>n\<close> elements.\<close>

definition subscript :: "nat \<Rightarrow> int \<Rightarrow> error + nat" where
  "subscript n i =
     (if 0 \<le> i \<and> i < int n then Inr (nat i)
      else if i < 0 \<and> - int n \<le> i then Inr (nat (int n + i))
      else Inl IndexError)"

definition getitem :: "'a list \<Rightarrow> int \<Rightarrow> error + 'a" where
  "getitem xs i = bind_res (subscript (length xs) i) (\<lambda>k. Inr (xs ! k))"

definition setitem :: "'a list \<Rightarrow> int \<Rightarrow> 'a \<Rightarrow> error + 'a list" where
  "setitem xs i v = bind_res (subscript (length xs) i) (\<lambda>k. Inr (xs[k := v]))"

text \<open>\<^verbatim>\<open>range(a, b)\<close> and \<^verbatim>\<open>range(a, b, -1)\<close>.\<close>

definition range_up :: "int \<Rightarrow> int \<Rightarrow> int list" where
  "range_up a b = [a..b - 1]"

definition range_down :: "int \<Rightarrow> int \<Rightarrow> int list" where
  "range_down a b = rev [b + 1..a]"

text \<open>A \<^verbatim>\<open>for\<close> loop over a list of values; an exception in the body ends the loop.\<close>

primrec for_each :: "'i list \<Rightarrow> ('i \<Rightarrow> 's \<Rightarrow> error + 's) \<Rightarrow> 's \<Rightarrow> error + 's" where
  "for_each [] body s = Inr s"
| "for_each (x # xs) body s = bind_res (body x s) (for_each xs body)"

text \<open>
  \<^verbatim>\<open>int(dim/2)\<close> is a division of two integers with a floating-point result, truncated
  towards zero. \<open>float_half\<close> is that expression on every integer: the quotient is rounded
  to the nearest number with 53 significant bits, to the even one of two equally near; the
  division raises \<^verbatim>\<open>OverflowError\<close> when the rounded quotient is \<open>2^1024\<close> or more; the
  sign is that of \<open>dim\<close>. \<open>bit_length\<close> is the method of that name of Python's integers, on
  the integers that are not negative.

  \<open>int_half\<close> is the same expression where no rounding takes place. The two agree wherever
  the magnitude of \<open>dim\<close> is below \<open>2^53 + 3\<close> (lemma \<open>float_half_exact\<close>), which holds
  of the length of every list, and differ at \<open>2^53 + 3\<close>. The functions that
  \<^verbatim>\<open>rotate_matrix\<close> runs on the length of its argument are written with \<open>int_half\<close>;
  \<open>get_cycle_float\<close> below is \<^verbatim>\<open>get_cycle\<close> on an arbitrary integer.
\<close>

definition int_half :: "int \<Rightarrow> int" where
  "int_half dim = (if 0 \<le> dim then dim div 2 else - ((- dim) div 2))"

function bit_length :: "int \<Rightarrow> nat" where
  "bit_length n = (if n \<le> 0 then 0 else Suc (bit_length (n div 2)))"
  by pat_completeness auto
termination
  by (relation "measure nat") auto

definition float_half :: "int \<Rightarrow> error + int" where
  "float_half dim =
     (let a = \<bar>dim\<bar>; e = bit_length a
      in if e \<le> 53 then Inr (sgn dim * (a div 2))
         else
           let m = 2 ^ (e - 53);
               k = a div m;
               r = a mod m;
               k' = (if 2 * r < m \<or> 2 * r = m \<and> even k then k else k + 1);
               v = k' * (m div 2)
           in if 2 ^ 1024 \<le> v then Inl OverflowError else Inr (sgn dim * v))"

subsection \<open>The source functions\<close>

text \<open>
  The source's \<^verbatim>\<open>odd\<close> and its variable \<^verbatim>\<open>size\<close> are written \<open>odd'\<close> and \<open>size'\<close>,
  since HOL has constants of both names.
\<close>

definition odd' :: "int \<Rightarrow> int \<Rightarrow> int" where
  "odd' dim cycle = (if dim mod 2 \<noteq> 0 then cycle + 1 else cycle)"

definition get_cycle :: "int \<Rightarrow> int \<Rightarrow> coord list \<times> int" where
  "get_cycle cycle dim =
     (let init = int_half dim;
          upper = map (\<lambda>i. (init - cycle - 1, i))
                    (range_up (init - cycle - 1) (init + odd' dim cycle + 1));
          size' = int (length upper) - 1;
          right = map (\<lambda>i. (i, init + odd' dim cycle))
                    (range_up (init - cycle) (init + odd' dim cycle + 1));
          lower = map (\<lambda>i. (init + odd' dim cycle, i))
                    (range_down (init + odd' dim cycle - 1) (init - cycle - 2));
          left = map (\<lambda>i. (i, init - cycle - 1))
                    (range_down (init + odd' dim cycle - 1) (init - cycle - 1))
      in (upper @ right @ lower @ left, size'))"

text \<open>
  \<^verbatim>\<open>get_cycle\<close> on an arbitrary integer \<open>dim\<close>: the same four loops, with \<^verbatim>\<open>init\<close> the
  rounded quotient.
\<close>

definition get_cycle_float :: "int \<Rightarrow> int \<Rightarrow> error + coord list \<times> int" where
  "get_cycle_float cycle dim =
     bind_res (float_half dim) (\<lambda>init.
       let upper = map (\<lambda>i. (init - cycle - 1, i))
                     (range_up (init - cycle - 1) (init + odd' dim cycle + 1));
           size' = int (length upper) - 1;
           right = map (\<lambda>i. (i, init + odd' dim cycle))
                     (range_up (init - cycle) (init + odd' dim cycle + 1));
           lower = map (\<lambda>i. (init + odd' dim cycle, i))
                     (range_down (init + odd' dim cycle - 1) (init - cycle - 2));
           left = map (\<lambda>i. (i, init - cycle - 1))
                     (range_down (init + odd' dim cycle - 1) (init - cycle - 1))
       in Inr (upper @ right @ lower @ left, size'))"

text \<open>\<^verbatim>\<open>matr[rot[k][0]][rot[k][1]]\<close> as an expression, and as the target of an assignment.\<close>

definition cell_get :: "'a matrix \<Rightarrow> coord list \<Rightarrow> int \<Rightarrow> error + 'a" where
  "cell_get matr rot k =
     bind_res (getitem rot k) (\<lambda>(r, c).
     bind_res (getitem matr r) (\<lambda>row. getitem row c))"

definition cell_put :: "'a matrix \<Rightarrow> coord list \<Rightarrow> int \<Rightarrow> 'a \<Rightarrow> error + 'a matrix" where
  "cell_put matr rot k v =
     bind_res (getitem rot k) (\<lambda>(r, c).
     bind_res (getitem matr r) (\<lambda>row.
     bind_res (setitem row c v) (\<lambda>row'. setitem matr r row')))"

text \<open>The body of the inner loop (lines 85 to 96), one line of the model per assignment.\<close>

definition quartet :: "coord list \<Rightarrow> int \<Rightarrow> int \<Rightarrow> 'a matrix \<Rightarrow> error + 'a matrix" where
  "quartet rot size' i matr =
     bind_res (cell_get matr rot (i + size')) (\<lambda>tmp.
     bind_res (bind_res (cell_get matr rot i) (cell_put matr rot (i + size'))) (\<lambda>matr.
     bind_res (cell_put matr rot i tmp) (\<lambda>matr.
     bind_res (cell_get matr rot (i + 2 * size')) (\<lambda>tmp.
     bind_res (bind_res (cell_get matr rot i) (cell_put matr rot (i + 2 * size'))) (\<lambda>matr.
     bind_res (cell_put matr rot i tmp) (\<lambda>matr.
     bind_res (cell_get matr rot (i + 3 * size')) (\<lambda>tmp.
     bind_res (bind_res (cell_get matr rot i) (cell_put matr rot (i + 3 * size'))) (\<lambda>matr.
     cell_put matr rot i tmp))))))))"

text \<open>
  The same nine assignments as statements, to speak of the variables they use and of the
  order of their writes. A place is a local variable or the cell
  \<^verbatim>\<open>matr[rot[k][0]][rot[k][1]]\<close> for a subscript \<open>k\<close>; an assignment reads its source, then
  writes its target; a frame is the matrix together with the values of the local variables
  that hold entries of the matrix. \<open>quartet_body\<close> lists lines 85 to 96 in their order.
\<close>

datatype place = Scratch string | Slot int

datatype stmt = Assign place place

type_synonym 'a frame = "'a matrix \<times> (string \<rightharpoonup> 'a)"

definition read_place :: "coord list \<Rightarrow> 'a frame \<Rightarrow> place \<Rightarrow> error + 'a" where
  "read_place rot fr pl =
     (case pl of
        Scratch v \<Rightarrow> (case snd fr v of None \<Rightarrow> Inl UnboundLocalError | Some x \<Rightarrow> Inr x)
      | Slot k \<Rightarrow> cell_get (fst fr) rot k)"

definition write_place :: "coord list \<Rightarrow> 'a frame \<Rightarrow> place \<Rightarrow> 'a \<Rightarrow> error + 'a frame" where
  "write_place rot fr pl x =
     (case pl of
        Scratch v \<Rightarrow> Inr (fst fr, (snd fr)(v \<mapsto> x))
      | Slot k \<Rightarrow> bind_res (cell_put (fst fr) rot k x) (\<lambda>matr. Inr (matr, snd fr)))"

fun exec :: "coord list \<Rightarrow> stmt \<Rightarrow> 'a frame \<Rightarrow> error + 'a frame" where
  "exec rot (Assign target source) fr =
     bind_res (read_place rot fr source) (write_place rot fr target)"

definition quartet_body :: "int \<Rightarrow> int \<Rightarrow> stmt list" where
  "quartet_body size' i =
     [Assign (Scratch ''tmp'') (Slot (i + size')),
      Assign (Slot (i + size')) (Slot i),
      Assign (Slot i) (Scratch ''tmp''),
      Assign (Scratch ''tmp'') (Slot (i + 2 * size')),
      Assign (Slot (i + 2 * size')) (Slot i),
      Assign (Slot i) (Scratch ''tmp''),
      Assign (Scratch ''tmp'') (Slot (i + 3 * size')),
      Assign (Slot (i + 3 * size')) (Slot i),
      Assign (Slot i) (Scratch ''tmp'')]"

text \<open>The local variables a statement list names, and the cells it writes, in order.\<close>

fun scratch_of :: "place \<Rightarrow> string set" where
  "scratch_of (Scratch v) = {v}"
| "scratch_of (Slot k) = {}"

fun scratch_vars :: "stmt list \<Rightarrow> string set" where
  "scratch_vars [] = {}"
| "scratch_vars (Assign target source # ss) = scratch_of target \<union> scratch_of source \<union> scratch_vars ss"

fun slot_writes :: "stmt list \<Rightarrow> int list" where
  "slot_writes [] = []"
| "slot_writes (Assign (Slot k) source # ss) = k # slot_writes ss"
| "slot_writes (Assign (Scratch v) source # ss) = slot_writes ss"

text \<open>
  The body of the outer loop (lines 78 to 96): the coordinate list and the size of the cycle,
  then the inner loop over \<^verbatim>\<open>range(size)\<close>.
\<close>

definition rotate_cycle :: "int \<Rightarrow> int \<Rightarrow> 'a matrix \<Rightarrow> error + 'a matrix" where
  "rotate_cycle dim cycle matr =
     (case get_cycle cycle dim of
        (rot, size') \<Rightarrow> for_each (range_up 0 size') (quartet rot size') matr)"

definition rotate_matrix :: "'a matrix \<Rightarrow> error + 'a matrix" where
  "rotate_matrix matr =
     (let dim = int (length matr);
          cycles = int_half dim
      in for_each (range_up 0 cycles) (rotate_cycle dim) matr)"

section \<open>Notions for the statements and the proofs\<close>

subsection \<open>Matrices, quarter turns and borders\<close>

text \<open>
  A matrix of side \<open>D\<close>: \<open>D\<close> rows of \<open>D\<close> entries each.
\<close>

definition square :: "nat \<Rightarrow> 'a matrix \<Rightarrow> bool" where
  "square D matr = (length matr = D \<and> list_all (\<lambda>row. length row = D) matr)"

text \<open>
  The entry of a matrix at a coordinate pair with no negative component.
\<close>

definition entry :: "'a matrix \<Rightarrow> coord \<Rightarrow> 'a" where
  "entry matr p = matr ! nat (fst p) ! nat (snd p)"

text \<open>
  A coordinate pair that names a cell of a matrix of side \<open>D\<close> without wrapping around.
\<close>

definition inside :: "nat \<Rightarrow> coord \<Rightarrow> bool" where
  "inside D p = (0 \<le> fst p \<and> fst p < int D \<and> 0 \<le> snd p \<and> snd p < int D)"

text \<open>
  The quarter turns of a matrix as the specification words them: the entry in row \<open>i\<close> and
  column \<open>j\<close> of the clockwise turn is the entry in row \<open>D - 1 - j\<close> and column \<open>i\<close>; that of
  the counter-clockwise turn is the entry in row \<open>j\<close> and column \<open>D - 1 - i\<close>.
\<close>

definition clockwise :: "'a matrix \<Rightarrow> 'a matrix" where
  "clockwise matr =
     map (\<lambda>i. map (\<lambda>j. matr ! (length matr - 1 - j) ! i) [0..<length matr]) [0..<length matr]"

definition counter_clockwise :: "'a matrix \<Rightarrow> 'a matrix" where
  "counter_clockwise matr =
     map (\<lambda>i. map (\<lambda>j. matr ! j ! (length matr - 1 - i)) [0..<length matr]) [0..<length matr]"

text \<open>
  The cells of the border number \<open>k\<close> of a matrix of side \<open>dim\<close>, the borders counted inwards
  from the outer edge, which is number 0.
\<close>

definition on_border :: "int \<Rightarrow> int \<Rightarrow> coord \<Rightarrow> bool" where
  "on_border dim k p =
     (k \<le> fst p \<and> fst p \<le> dim - 1 - k \<and> k \<le> snd p \<and> snd p \<le> dim - 1 - k \<and>
      (fst p = k \<or> fst p = dim - 1 - k \<or> snd p = k \<or> snd p = dim - 1 - k))"

text \<open>
  The upper side of a cycle as the specification words it, ending at column
  \<open>half + parityBump\<close>, and as \<^verbatim>\<open>get_cycle\<close> builds it, ending at column
  \<open>half + cycle + parityBump\<close>.
\<close>

definition claimed_upper_side :: "int \<Rightarrow> int \<Rightarrow> coord list" where
  "claimed_upper_side cycle dim =
     map (\<lambda>j. (dim div 2 - cycle - 1, j))
       [dim div 2 - cycle - 1..dim div 2 + (if dim mod 2 = 1 then 1 else 0)]"

definition upper_side :: "int \<Rightarrow> int \<Rightarrow> coord list" where
  "upper_side cycle dim =
     map (\<lambda>j. (dim div 2 - cycle - 1, j))
       [dim div 2 - cycle - 1..dim div 2 + cycle + (if dim mod 2 = 1 then 1 else 0)]"

subsection \<open>The loops seen as maps on the cells\<close>

text \<open>
  The first and the last row (and column) of the square that cycle number \<open>cycle\<close> runs
  around: \<^verbatim>\<open>init-cycle-1\<close> and \<^verbatim>\<open>init+odd(dim, cycle)\<close> in \<^verbatim>\<open>get_cycle\<close>.
\<close>

definition ring_lo :: "int \<Rightarrow> int \<Rightarrow> int" where
  "ring_lo dim cycle = int_half dim - cycle - 1"

definition ring_hi :: "int \<Rightarrow> int \<Rightarrow> int" where
  "ring_hi dim cycle = int_half dim + odd' dim cycle"

text \<open>
  The coordinate list of \<^verbatim>\<open>get_cycle\<close> in terms of those two bounds: upper side, right side,
  lower side backwards, left side backwards.
\<close>

definition ring :: "int \<Rightarrow> int \<Rightarrow> coord list" where
  "ring lo hi =
     map (\<lambda>i. (lo, i)) [lo..hi] @ map (\<lambda>i. (i, hi)) [lo + 1..hi] @
     map (\<lambda>i. (hi, i)) (rev [lo..hi - 1]) @ map (\<lambda>i. (i, lo)) (rev [lo + 1..hi - 1])"

text \<open>
  The matrix of side \<open>D\<close> whose entry in row \<open>r\<close> and column \<open>c\<close> is \<open>f (r, c)\<close>. Every square
  matrix is of this form, which turns an assignment to a cell into a function update.
\<close>

definition mk :: "nat \<Rightarrow> (coord \<Rightarrow> 'a) \<Rightarrow> 'a matrix" where
  "mk D f = map (\<lambda>r. map (\<lambda>c. f (int r, int c)) [0..<D]) [0..<D]"

text \<open>
  The effect on the entries of one exchange through \<^verbatim>\<open>tmp\<close> (three lines of the loop body).
\<close>

definition swap_cells :: "coord \<Rightarrow> coord \<Rightarrow> (coord \<Rightarrow> 'a) \<Rightarrow> coord \<Rightarrow> 'a" where
  "swap_cells a b f = f(b := f a, a := f b)"

text \<open>
  The cell whose entry a clockwise quarter turn of the square between \<open>lo\<close> and \<open>hi\<close> brings
  to the cell \<open>p\<close>.
\<close>

definition src :: "int \<Rightarrow> int \<Rightarrow> coord \<Rightarrow> coord" where
  "src lo hi p = (lo + hi - snd p, fst p)"

text \<open>
  The cells of the first \<open>k\<close> quartets of that square, and the entries after the inner loop
  has handled them: the invariant of the inner loop.
\<close>

definition on_quartets :: "int \<Rightarrow> int \<Rightarrow> int \<Rightarrow> coord \<Rightarrow> bool" where
  "on_quartets lo hi k p =
     (fst p = lo \<and> lo \<le> snd p \<and> snd p < lo + k \<or>
      snd p = hi \<and> lo \<le> fst p \<and> fst p < lo + k \<or>
      fst p = hi \<and> hi - k < snd p \<and> snd p \<le> hi \<or>
      snd p = lo \<and> hi - k < fst p \<and> fst p \<le> hi)"

definition turned :: "int \<Rightarrow> int \<Rightarrow> int \<Rightarrow> (coord \<Rightarrow> 'a) \<Rightarrow> coord \<Rightarrow> 'a" where
  "turned lo hi k f p = (if on_quartets lo hi k p then f (src lo hi p) else f p)"

text \<open>
  The cells strictly inside the square between \<open>lo\<close> and \<open>hi\<close>.
\<close>

definition within :: "int \<Rightarrow> int \<Rightarrow> coord \<Rightarrow> bool" where
  "within lo hi p = (lo < fst p \<and> fst p < hi \<and> lo < snd p \<and> snd p < hi)"

text \<open>
  The cell whose entry a clockwise quarter turn of the whole matrix brings to the cell \<open>p\<close>.
\<close>

definition cw_src :: "int \<Rightarrow> coord \<Rightarrow> coord" where
  "cw_src dim p = (dim - 1 - snd p, fst p)"

text \<open>
  The entries before the outer loop handles cycle number \<open>cycle\<close>: the cells inside that
  cycle's square are turned, the others are as they were. This is the invariant of the outer
  loop.
\<close>

definition partly :: "int \<Rightarrow> int \<Rightarrow> (coord \<Rightarrow> 'a) \<Rightarrow> coord \<Rightarrow> 'a" where
  "partly dim cycle f p =
     (if within (ring_lo dim cycle) (ring_hi dim cycle) p then f (cw_src dim p) else f p)"

text \<open>
  The cells of a matrix of side \<open>D\<close>, row by row.
\<close>

definition cells :: "nat \<Rightarrow> coord list" where
  "cells D = concat (map (\<lambda>r. map (\<lambda>c. (int r, int c)) [0..<D]) [0..<D])"

text \<open>
  The number of the cycle whose square has the cell \<open>p\<close> on its border: negative for the
  centre of a matrix of odd side, \<open>int(dim/2)\<close> or more outside the matrix.
\<close>

definition level :: "int \<Rightarrow> coord \<Rightarrow> int" where
  "level dim p =
     max (max (int_half dim - 1 - fst p) (fst p - int_half dim - odd' dim 0))
         (max (int_half dim - 1 - snd p) (snd p - int_half dim - odd' dim 0))"

section \<open>Lemmas\<close>

subsection \<open>The coordinate list and its subscripts\<close>

lemma bind_res_simps [simp]:
  "bind_res (Inl e) f = Inl e" "bind_res (Inr x) f = f x"
  by (simp_all add: bind_res_def)

lemma get_cycle_ring:
  "get_cycle cycle dim =
     (ring (ring_lo dim cycle) (ring_hi dim cycle),
      int (length [ring_lo dim cycle..ring_hi dim cycle]) - 1)"
  by (simp add: get_cycle_def ring_def ring_lo_def ring_hi_def range_up_def range_down_def Let_def)

lemma get_cycle_size:
  "ring_lo dim cycle \<le> ring_hi dim cycle + 1 \<Longrightarrow>
   snd (get_cycle cycle dim) = ring_hi dim cycle - ring_lo dim cycle"
  by (simp add: get_cycle_ring)

lemma length_ring: "lo < hi \<Longrightarrow> int (length (ring lo hi)) = 4 * (hi - lo)"
  by (simp add: ring_def)

lemma subscript_in [simp]: "0 \<le> i \<Longrightarrow> i < int n \<Longrightarrow> subscript n i = Inr (nat i)"
  by (simp add: subscript_def)

lemma getitem_in: "0 \<le> i \<Longrightarrow> i < int (length xs) \<Longrightarrow> getitem xs i = Inr (xs ! nat i)"
  by (simp add: getitem_def)

lemma rev_upto_nth:
  assumes "int j < b - a + 1"
  shows "rev [a..b] ! j = b - int j"
proof -
  have l: "length [a..b] = nat (b - a + 1)" by simp
  have j: "j < length [a..b]" using assms unfolding l by linarith
  have "rev [a..b] ! j = [a..b] ! (length [a..b] - Suc j)"
    using j by (rule rev_nth)
  also have "length [a..b] - Suc j = nat (b - a - int j)"
    using assms unfolding l by linarith
  also have "[a..b] ! nat (b - a - int j) = a + int (nat (b - a - int j))"
    using assms by (intro nth_upto) linarith
  also have "\<dots> = b - int j" using assms by linarith
  finally show ?thesis .
qed

lemma nth_app4:
  assumes "length A = n + 1" "length B = n" "length C = n"
  shows "k \<le> n \<Longrightarrow> (A @ B @ C @ E) ! k = A ! k"
    and "j < n \<Longrightarrow> (A @ B @ C @ E) ! (n + 1 + j) = B ! j"
    and "j < n \<Longrightarrow> (A @ B @ C @ E) ! (2 * n + 1 + j) = C ! j"
    and "(A @ B @ C @ E) ! (3 * n + 1 + j) = E ! j"
  by (simp_all add: nth_append assms)

lemma ring_nth_nat:
  assumes "k < n"
  shows "ring lo (lo + int n) ! k = (lo, lo + int k)"
    and "ring lo (lo + int n) ! (k + n) = (lo + int k, lo + int n)"
    and "ring lo (lo + int n) ! (k + 2 * n) = (lo + int n, lo + int n - int k)"
    and "ring lo (lo + int n) ! (k + 3 * n) = (lo + int n - int k, lo)"
proof -
  let ?hi = "lo + int n"
  let ?U = "map (\<lambda>i. (lo, i)) [lo..?hi]"
  let ?R = "map (\<lambda>i. (i, ?hi)) [lo + 1..?hi]"
  let ?L = "map (\<lambda>i. (?hi, i)) (rev [lo..?hi - 1])"
  let ?W = "map (\<lambda>i. (i, lo)) (rev [lo + 1..?hi - 1])"
  have len: "length ?U = n + 1" "length ?R = n" "length ?L = n"
    by simp_all
  note app = nth_app4 [OF len, where E = ?W]
  have r: "ring lo ?hi = ?U @ ?R @ ?L @ ?W"
    by (simp add: ring_def)
  have U: "?U ! j = (lo, lo + int j)" if "j \<le> n" for j
    using that by simp
  have R: "?R ! j = (lo + 1 + int j, ?hi)" if "j < n" for j
    using that by simp
  have L: "?L ! j = (?hi, ?hi - 1 - int j)" if "j < n" for j
    using that by (simp add: rev_upto_nth)
  have W: "?W ! j = (?hi - 1 - int j, lo)" if "j < n - 1" for j
  proof -
    have "int j < (?hi - 1) - (lo + 1) + 1" using that by linarith
    then have "rev [lo + 1..?hi - 1] ! j = ?hi - 1 - int j" by (rule rev_upto_nth)
    moreover have "j < length (rev [lo + 1..?hi - 1])" using that by simp
    ultimately show ?thesis by simp
  qed
  show "ring lo ?hi ! k = (lo, lo + int k)"
    using assms app(1) [of k] U [of k] by (simp only: r less_imp_le)
  show "ring lo ?hi ! (k + n) = (lo + int k, ?hi)"
  proof (cases k)
    case 0
    then show ?thesis using app(1) [of n] U [of n] by (simp only: r) simp
  next
    case (Suc j)
    then have "k + n = n + 1 + j" "j < n" using assms by simp_all
    then show ?thesis using app(2) [of j] R [of j] Suc by (simp only: r) simp
  qed
  show "ring lo ?hi ! (k + 2 * n) = (?hi, ?hi - int k)"
  proof (cases k)
    case 0
    then have "k + 2 * n = n + 1 + (n - 1)" "n - 1 < n" using assms by simp_all
    then show ?thesis using app(2) [of "n - 1"] R [of "n - 1"] 0 assms
      by (simp only: r) (simp add: of_nat_diff)
  next
    case (Suc j)
    then have "k + 2 * n = 2 * n + 1 + j" "j < n" using assms by simp_all
    then show ?thesis using app(3) [of j] L [of j] Suc by (simp only: r) simp
  qed
  show "ring lo ?hi ! (k + 3 * n) = (?hi - int k, lo)"
  proof (cases k)
    case 0
    then have "k + 3 * n = 2 * n + 1 + (n - 1)" "n - 1 < n" using assms by simp_all
    then show ?thesis using app(3) [of "n - 1"] L [of "n - 1"] 0 assms
      by (simp only: r) (simp add: of_nat_diff)
  next
    case (Suc j)
    then have "k + 3 * n = 3 * n + 1 + j" "j < n - 1" using assms by simp_all
    then show ?thesis using app(4) [of j] W [of j] Suc by (simp only: r) simp
  qed
qed

lemma getitem_ring:
  assumes "0 \<le> i" "i < hi - lo"
  shows "getitem (ring lo hi) i = Inr (lo, lo + i)"
    and "getitem (ring lo hi) (i + (hi - lo)) = Inr (lo + i, hi)"
    and "getitem (ring lo hi) (i + 2 * (hi - lo)) = Inr (hi, hi - i)"
    and "getitem (ring lo hi) (i + 3 * (hi - lo)) = Inr (hi - i, lo)"
proof -
  obtain k where k: "i = int k" using assms(1) by (metis nonneg_int_cases)
  obtain n where n: "hi = lo + int n" using assms by (metis add.commute diff_add_cancel less_imp_le nonneg_int_cases order_trans)
  have kn: "k < n" using assms k n by simp
  have len: "int (length (ring lo hi)) = 4 * int n"
    using length_ring [of lo hi] kn n by simp
  have nats: "nat (int k) = k" "nat (int k + int n) = k + n"
    "nat (int k + 2 * int n) = k + 2 * n" "nat (int k + 3 * int n) = k + 3 * n"
    by simp_all
  show "getitem (ring lo hi) i = Inr (lo, lo + i)"
    using kn len by (simp add: getitem_in k n ring_nth_nat(1) del: of_nat_add)
  show "getitem (ring lo hi) (i + (hi - lo)) = Inr (lo + i, hi)"
    using kn len nats ring_nth_nat(2) [OF kn, of lo] by (simp add: getitem_in k n)
  show "getitem (ring lo hi) (i + 2 * (hi - lo)) = Inr (hi, hi - i)"
    using kn len nats ring_nth_nat(3) [OF kn, of lo] by (simp add: getitem_in k n)
  show "getitem (ring lo hi) (i + 3 * (hi - lo)) = Inr (hi - i, lo)"
    using kn len nats ring_nth_nat(4) [OF kn, of lo] by (simp add: getitem_in k n)
qed

subsection \<open>Reading and writing the cells of a matrix\<close>

lemma length_mk [simp]: "length (mk D f) = D"
  by (simp add: mk_def)

lemma nth_mk: "r < D \<Longrightarrow> mk D f ! r = map (\<lambda>c. f (int r, int c)) [0..<D]"
  by (simp add: mk_def)

lemma mk_update:
  assumes "r < D" "c < D"
  shows "(mk D f)[r := (mk D f ! r)[c := v]] = mk D (f((int r, int c) := v))"
proof (rule nth_equalityI)
  show "length ((mk D f)[r := (mk D f ! r)[c := v]]) = length (mk D (f((int r, int c) := v)))"
    by simp
next
  fix i assume "i < length ((mk D f)[r := (mk D f ! r)[c := v]])"
  then have i: "i < D" by simp
  show "(mk D f)[r := (mk D f ! r)[c := v]] ! i = mk D (f((int r, int c) := v)) ! i"
  proof (cases "i = r")
    case True
    have "(map (\<lambda>c. f (int r, int c)) [0..<D])[c := v]
          = map (\<lambda>c'. (f((int r, int c) := v)) (int r, int c')) [0..<D]"
      using assms by (intro nth_equalityI) (auto simp: nth_list_update)
    then show ?thesis using True assms by (simp add: nth_mk)
  next
    case False
    then show ?thesis using i assms by (simp add: nth_mk)
  qed
qed

lemma cell_get_mk:
  assumes "getitem rot k = Inr p" "inside D p"
  shows "cell_get (mk D f) rot k = Inr (f p)"
proof -
  obtain r c where p: "p = (r, c)" by (cases p)
  have rc: "0 \<le> r" "r < int D" "0 \<le> c" "c < int D"
    using assms(2) by (simp_all add: inside_def p)
  then have "nat r < D" "nat c < D" by simp_all
  then show ?thesis
    using assms(1) rc by (simp add: cell_get_def p getitem_in nth_mk)
qed

lemma cell_put_mk:
  assumes "getitem rot k = Inr p" "inside D p"
  shows "cell_put (mk D f) rot k v = Inr (mk D (f(p := v)))"
proof -
  obtain r c where p: "p = (r, c)" by (cases p)
  have rc: "0 \<le> r" "r < int D" "0 \<le> c" "c < int D"
    using assms(2) by (simp_all add: inside_def p)
  have row: "getitem (mk D f) r = Inr (mk D f ! nat r)"
    using rc by (simp add: getitem_in)
  have "length (mk D f ! nat r) = D" using rc by (simp add: nth_mk)
  then have put: "setitem (mk D f ! nat r) c v = Inr ((mk D f ! nat r)[nat c := v])"
    using rc by (simp add: setitem_def)
  have "setitem (mk D f) r ((mk D f ! nat r)[nat c := v])
        = Inr (mk D (f((int (nat r), int (nat c)) := v)))"
    using rc mk_update [of "nat r" D "nat c" f v] by (simp add: setitem_def)
  then show ?thesis
    using assms(1) rc by (simp add: cell_put_def p row put)
qed

lemma quartet_mk:
  assumes "getitem rot i = Inr a" "getitem rot (i + n) = Inr b"
    "getitem rot (i + 2 * n) = Inr c" "getitem rot (i + 3 * n) = Inr d"
    "inside D a" "inside D b" "inside D c" "inside D d"
  shows "quartet rot n i (mk D f)
         = Inr (mk D (swap_cells a d (swap_cells a c (swap_cells a b f))))"
  unfolding quartet_def swap_cells_def
  by (simp add: cell_get_mk [OF assms(1) assms(5)] cell_get_mk [OF assms(2) assms(6)]
      cell_get_mk [OF assms(3) assms(7)] cell_get_mk [OF assms(4) assms(8)]
      cell_put_mk [OF assms(1) assms(5)] cell_put_mk [OF assms(2) assms(6)]
      cell_put_mk [OF assms(3) assms(7)] cell_put_mk [OF assms(4) assms(8)])

subsection \<open>The inner loop\<close>

lemma turned_0: "turned lo hi 0 f = f"
  by (rule ext) (auto simp: turned_def on_quartets_def)

lemma swap_cells_thrice:
  assumes "a \<noteq> b" "a \<noteq> c" "a \<noteq> d" "b \<noteq> c" "b \<noteq> d" "c \<noteq> d"
  shows "swap_cells a d (swap_cells a c (swap_cells a b g))
         = g(b := g a, c := g b, d := g c, a := g d)"
  using assms by (auto simp: swap_cells_def fun_eq_iff)

lemma quartet_distinct:
  fixes lo hi k :: int
  assumes "0 \<le> k" "k < hi - lo"
  shows "(lo, lo + k) \<noteq> (lo + k, hi)" "(lo, lo + k) \<noteq> (hi, hi - k)"
    "(lo, lo + k) \<noteq> (hi - k, lo)" "(lo + k, hi) \<noteq> (hi, hi - k)"
    "(lo + k, hi) \<noteq> (hi - k, lo)" "(hi, hi - k) \<noteq> (hi - k, lo)"
  using assms by simp_all

lemma quartet_fresh:
  assumes "0 \<le> k" "k < hi - lo"
  shows "\<not> on_quartets lo hi k (lo, lo + k)" "\<not> on_quartets lo hi k (lo + k, hi)"
    "\<not> on_quartets lo hi k (hi, hi - k)" "\<not> on_quartets lo hi k (hi - k, lo)"
  using assms by (simp_all add: on_quartets_def)

lemma on_quartets_Suc:
  assumes "0 \<le> k" "k < hi - lo"
  shows "on_quartets lo hi (k + 1) p \<longleftrightarrow>
         on_quartets lo hi k p \<or> p = (lo, lo + k) \<or> p = (lo + k, hi) \<or>
         p = (hi, hi - k) \<or> p = (hi - k, lo)"
proof -
  obtain r c where p: "p = (r, c)" by (cases p)
  have 1: "(r = lo \<and> lo \<le> c \<and> c < lo + (k + 1)) \<longleftrightarrow>
           (r = lo \<and> lo \<le> c \<and> c < lo + k) \<or> (r = lo \<and> c = lo + k)"
    using assms by linarith
  have 2: "(c = hi \<and> lo \<le> r \<and> r < lo + (k + 1)) \<longleftrightarrow>
           (c = hi \<and> lo \<le> r \<and> r < lo + k) \<or> (r = lo + k \<and> c = hi)"
    using assms by linarith
  have 3: "(r = hi \<and> hi - (k + 1) < c \<and> c \<le> hi) \<longleftrightarrow>
           (r = hi \<and> hi - k < c \<and> c \<le> hi) \<or> (r = hi \<and> c = hi - k)"
    using assms by linarith
  have 4: "(c = lo \<and> hi - (k + 1) < r \<and> r \<le> hi) \<longleftrightarrow>
           (c = lo \<and> hi - k < r \<and> r \<le> hi) \<or> (r = hi - k \<and> c = lo)"
    using assms by linarith
  show ?thesis
    unfolding p on_quartets_def fst_conv snd_conv prod.inject 1 2 3 4 by blast
qed

lemma turned_step:
  assumes "0 \<le> k" "k < hi - lo"
  shows "swap_cells (lo, lo + k) (hi - k, lo)
           (swap_cells (lo, lo + k) (hi, hi - k)
             (swap_cells (lo, lo + k) (lo + k, hi) (turned lo hi k f)))
         = turned lo hi (k + 1) f"
proof -
  define a b c d where abcd: "a = (lo, lo + k)" "b = (lo + k, hi)" "c = (hi, hi - k)" "d = (hi - k, lo)"
  define g where "g = turned lo hi k f"
  note ne = quartet_distinct [OF assms, folded abcd]
  note fr = quartet_fresh [OF assms, folded abcd]
  have g: "g a = f a" "g b = f b" "g c = f c" "g d = f d"
    using fr by (simp_all add: turned_def g_def)
  have s: "src lo hi a = d" "src lo hi b = a" "src lo hi c = b" "src lo hi d = c"
    by (simp_all add: src_def abcd)
  have on: "on_quartets lo hi (k + 1) p \<longleftrightarrow>
         on_quartets lo hi k p \<or> p = a \<or> p = b \<or> p = c \<or> p = d" for p
    using on_quartets_Suc [OF assms, of p] by (simp only: abcd)
  have "(g(b := g a, c := g b, d := g c, a := g d)) p = turned lo hi (k + 1) f p" for p
  proof -
    consider "p = a" | "p = b" | "p = c" | "p = d"
      | "p \<noteq> a" "p \<noteq> b" "p \<noteq> c" "p \<noteq> d" by blast
    then show ?thesis
    proof cases
      case 1
      then show ?thesis by (simp add: turned_def on g s)
    next
      case 2
      then show ?thesis using ne by (simp add: turned_def on g s)
    next
      case 3
      then show ?thesis using ne by (simp add: turned_def on g s)
    next
      case 4
      then show ?thesis using ne by (simp add: turned_def on g s)
    next
      case 5
      then show ?thesis by (simp add: turned_def on g_def)
    qed
  qed
  then have "g(b := g a, c := g b, d := g c, a := g d) = turned lo hi (k + 1) f"
    by (rule ext)
  then show ?thesis
    using swap_cells_thrice [OF ne, of g] by (simp only: abcd g_def)
qed

lemma quartet_ring:
  assumes "0 \<le> lo" "hi < int D" "0 \<le> k" "k < hi - lo"
  shows "quartet (ring lo hi) (hi - lo) k (mk D (turned lo hi k f))
         = Inr (mk D (turned lo hi (k + 1) f))"
proof -
  have ins: "inside D (lo, lo + k)" "inside D (lo + k, hi)"
    "inside D (hi, hi - k)" "inside D (hi - k, lo)"
    using assms by (simp_all add: inside_def)
  show ?thesis
    using quartet_mk [OF getitem_ring [OF assms(3,4)] ins, of "turned lo hi k f"]
    by (simp only: turned_step [OF assms(3,4)])
qed

lemma for_each_quartets:
  assumes "0 \<le> lo" "hi < int D" "0 \<le> k" "k \<le> hi - lo"
  shows "for_each [k..hi - lo - 1] (quartet (ring lo hi) (hi - lo)) (mk D (turned lo hi k f))
         = Inr (mk D (turned lo hi (hi - lo) f))"
  using assms(3,4)
proof (induction "nat (hi - lo - k)" arbitrary: k)
  case 0
  then have "k = hi - lo" by simp
  then show ?case by simp
next
  case (Suc m)
  then have k: "k < hi - lo" by linarith
  then have l: "[k..hi - lo - 1] = k # [k + 1..hi - lo - 1]"
    by (simp add: upto_rec1)
  have "m = nat (hi - lo - (k + 1))" using Suc(2) by linarith
  then have "for_each [k + 1..hi - lo - 1] (quartet (ring lo hi) (hi - lo))
               (mk D (turned lo hi (k + 1) f)) = Inr (mk D (turned lo hi (hi - lo) f))"
    using Suc(1) [of "k + 1"] Suc(3) k by simp
  then show ?case
    unfolding l by (simp add: quartet_ring [OF assms(1,2) Suc(3) k])
qed

lemma rotate_cycle_mk:
  assumes "0 \<le> ring_lo dim cycle" "ring_lo dim cycle < ring_hi dim cycle"
    "ring_hi dim cycle < int D"
  shows "rotate_cycle dim cycle (mk D f)
         = Inr (mk D (turned (ring_lo dim cycle) (ring_hi dim cycle)
                        (ring_hi dim cycle - ring_lo dim cycle) f))"
proof -
  let ?lo = "ring_lo dim cycle" and ?hi = "ring_hi dim cycle"
  have sz: "int (length [?lo..?hi]) - 1 = ?hi - ?lo" using assms by simp
  have "for_each [0..?hi - ?lo - 1] (quartet (ring ?lo ?hi) (?hi - ?lo)) (mk D (turned ?lo ?hi 0 f))
        = Inr (mk D (turned ?lo ?hi (?hi - ?lo) f))"
    using assms by (intro for_each_quartets) simp_all
  then show ?thesis
    by (simp add: rotate_cycle_def get_cycle_ring sz range_up_def turned_0 del: length_upto)
qed

subsection \<open>The outer loop\<close>

lemma ring_sum: "0 \<le> dim \<Longrightarrow> ring_lo dim cycle + ring_hi dim cycle = dim - 1"
  by (simp add: ring_lo_def ring_hi_def int_half_def odd'_def) presburger

lemma ring_Suc:
  "ring_lo dim (cycle + 1) = ring_lo dim cycle - 1"
  "ring_hi dim (cycle + 1) = ring_hi dim cycle + 1"
  by (simp_all add: ring_lo_def ring_hi_def odd'_def)

lemma ring_bounds:
  assumes "0 \<le> cycle" "cycle < int_half dim" "0 \<le> dim"
  shows "0 \<le> ring_lo dim cycle" "ring_lo dim cycle < ring_hi dim cycle" "ring_hi dim cycle < dim"
proof -
  show lo: "0 \<le> ring_lo dim cycle" using assms by (simp add: ring_lo_def)
  show "ring_lo dim cycle < ring_hi dim cycle"
    using assms by (simp add: ring_lo_def ring_hi_def odd'_def)
  show "ring_hi dim cycle < dim" using lo ring_sum [OF assms(3), of cycle] by linarith
qed

lemma src_cw: "lo + hi = dim - 1 \<Longrightarrow> src lo hi p = cw_src dim p"
  by (simp add: src_def cw_src_def)

lemma on_quartets_full:
  assumes "lo < hi"
  shows "on_quartets lo hi (hi - lo) p \<longleftrightarrow> within (lo - 1) (hi + 1) p \<and> \<not> within lo hi p"
proof -
  obtain r c where p: "p = (r, c)" by (cases p)
  have b: "within (lo - 1) (hi + 1) (r, c) \<and> \<not> within lo hi (r, c) \<longleftrightarrow>
        (lo \<le> r \<and> r \<le> hi \<and> lo \<le> c \<and> c \<le> hi) \<and> (r = lo \<or> r = hi \<or> c = lo \<or> c = hi)"
    unfolding within_def fst_conv snd_conv by linarith
  have 1: "(r = lo \<and> lo \<le> c \<and> c < lo + (hi - lo)) \<longleftrightarrow> (r = lo \<and> lo \<le> c \<and> c \<le> hi \<and> c \<noteq> hi)"
    by linarith
  have 2: "(c = hi \<and> lo \<le> r \<and> r < lo + (hi - lo)) \<longleftrightarrow> (c = hi \<and> lo \<le> r \<and> r \<le> hi \<and> r \<noteq> hi)"
    by linarith
  have 3: "(r = hi \<and> hi - (hi - lo) < c \<and> c \<le> hi) \<longleftrightarrow> (r = hi \<and> lo \<le> c \<and> c \<le> hi \<and> c \<noteq> lo)"
    by linarith
  have 4: "(c = lo \<and> hi - (hi - lo) < r \<and> r \<le> hi) \<longleftrightarrow> (c = lo \<and> lo \<le> r \<and> r \<le> hi \<and> r \<noteq> lo)"
    by linarith
  have lh: "lo \<le> hi" "lo \<noteq> hi" using assms by simp_all
  show ?thesis
    unfolding p b unfolding on_quartets_def fst_conv snd_conv 1 2 3 4
    using lh by blast
qed

lemma within_cw_src:
  assumes "lo + hi = dim - 1"
  shows "within lo hi (cw_src dim p) \<longleftrightarrow> within lo hi p"
  unfolding within_def cw_src_def fst_conv snd_conv using assms by linarith

lemma within_mono: "within lo hi p \<Longrightarrow> within (lo - 1) (hi + 1) p"
  unfolding within_def by linarith

lemma partly_step:
  assumes "0 \<le> dim" "ring_lo dim cycle < ring_hi dim cycle"
  shows "turned (ring_lo dim cycle) (ring_hi dim cycle) (ring_hi dim cycle - ring_lo dim cycle)
           (partly dim cycle f) = partly dim (cycle + 1) f"
proof (rule ext)
  fix p
  let ?lo = "ring_lo dim cycle" and ?hi = "ring_hi dim cycle"
  note sum = ring_sum [OF assms(1), of cycle]
  note w = within_cw_src [OF sum]
  show "turned ?lo ?hi (?hi - ?lo) (partly dim cycle f) p = partly dim (cycle + 1) f p"
    using within_mono [of ?lo ?hi p]
    by (auto simp add: turned_def partly_def on_quartets_full [OF assms(2)] ring_Suc
        src_cw [OF sum] w)
qed

lemma partly_0:
  assumes "0 \<le> dim"
  shows "partly dim 0 f = f"
proof (rule ext)
  fix p :: coord
  obtain r c where p: "p = (r, c)" by (cases p)
  show "partly dim 0 f p = f p"
  proof (cases "within (ring_lo dim 0) (ring_hi dim 0) p")
    case True
    then have "r = int_half dim" "c = int_half dim" "dim mod 2 \<noteq> 0"
      by (auto simp: p within_def ring_lo_def ring_hi_def odd'_def split: if_splits)
    moreover from this have "dim - 1 - int_half dim = int_half dim"
      using assms by (simp add: int_half_def) presburger
    ultimately have "cw_src dim p = p" by (simp add: cw_src_def p)
    then show ?thesis by (simp add: partly_def)
  next
    case False
    then show ?thesis by (simp add: partly_def)
  qed
qed

lemma for_each_cycles:
  assumes "0 \<le> c" "c \<le> int_half (int D)"
  shows "for_each [c..int_half (int D) - 1] (rotate_cycle (int D)) (mk D (partly (int D) c f))
         = Inr (mk D (partly (int D) (int_half (int D)) f))"
  using assms
proof (induction "nat (int_half (int D) - c)" arbitrary: c)
  case 0
  then have "c = int_half (int D)" by simp
  then show ?case by simp
next
  case (Suc m)
  then have c: "c < int_half (int D)" by linarith
  then have l: "[c..int_half (int D) - 1] = c # [c + 1..int_half (int D) - 1]"
    by (simp add: upto_rec1)
  note b = ring_bounds [OF Suc(3) c, simplified]
  have step: "rotate_cycle (int D) c (mk D (partly (int D) c f))
              = Inr (mk D (partly (int D) (c + 1) f))"
    using rotate_cycle_mk [OF b, of "partly (int D) c f"] partly_step [of "int D" c f] b
    by simp
  have "m = nat (int_half (int D) - (c + 1))" using Suc(2) by linarith
  then have "for_each [c + 1..int_half (int D) - 1] (rotate_cycle (int D))
               (mk D (partly (int D) (c + 1) f))
             = Inr (mk D (partly (int D) (int_half (int D)) f))"
    using Suc(1) [of "c + 1"] Suc(3) c by simp
  then show ?case unfolding l by (simp add: step)
qed

lemma mk_cong:
  assumes "\<And>p. inside D p \<Longrightarrow> f p = g p"
  shows "mk D f = mk D g"
  unfolding mk_def by (intro map_cong refl assms) (simp add: inside_def)

lemma partly_all:
  assumes "inside D p"
  shows "partly (int D) (int_half (int D)) f p = f (cw_src (int D) p)"
proof -
  have "ring_lo (int D) (int_half (int D)) = - 1"
    by (simp add: ring_lo_def)
  moreover have "ring_hi (int D) (int_half (int D)) = int D"
    using ring_sum [of "int D" "int_half (int D)"] calculation by simp
  ultimately show ?thesis using assms by (simp add: partly_def within_def inside_def)
qed

lemma rotate_matrix_mk:
  "rotate_matrix (mk D f) = Inr (mk D (\<lambda>p. f (cw_src (int D) p)))"
proof -
  have "rotate_matrix (mk D f)
        = for_each [0..int_half (int D) - 1] (rotate_cycle (int D)) (mk D (partly (int D) 0 f))"
    by (simp add: rotate_matrix_def range_up_def partly_0 Let_def)
  also have "\<dots> = Inr (mk D (partly (int D) (int_half (int D)) f))"
    by (rule for_each_cycles) (simp_all add: int_half_def)
  also have "mk D (partly (int D) (int_half (int D)) f) = mk D (\<lambda>p. f (cw_src (int D) p))"
    by (rule mk_cong) (rule partly_all)
  finally show ?thesis .
qed

subsection \<open>Square matrices\<close>

lemma square_mk [simp]: "square D (mk D f)"
  by (simp add: square_def mk_def list_all_iff)

lemma mk_entry:
  assumes "square D matr"
  shows "mk D (entry matr) = matr"
proof (rule nth_equalityI)
  show "length (mk D (entry matr)) = length matr" using assms by (simp add: square_def)
next
  fix i assume "i < length (mk D (entry matr))"
  then have i: "i < D" by simp
  then have "matr ! i \<in> set matr" using assms by (simp add: square_def)
  then have len: "length (matr ! i) = D" using assms by (simp add: square_def list_all_iff)
  have "map (\<lambda>c. entry matr (int i, int c)) [0..<D] = matr ! i"
    using len by (intro nth_equalityI) (simp_all add: entry_def)
  then show "mk D (entry matr) ! i = matr ! i" using i by (simp add: nth_mk)
qed

lemma nth_nth_mk: "i < D \<Longrightarrow> j < D \<Longrightarrow> mk D f ! i ! j = f (int i, int j)"
  by (simp add: nth_mk)

lemma entry_mk:
  assumes "inside D p"
  shows "entry (mk D f) p = f p"
proof -
  obtain r c where p: "p = (r, c)" by (cases p)
  have rc: "0 \<le> r" "0 \<le> c" "nat r < D" "nat c < D"
    using assms unfolding inside_def p fst_conv snd_conv by linarith+
  then show ?thesis by (simp add: entry_def p nth_mk)
qed

lemma rotate_matrix_square:
  assumes "square D matr"
  shows "rotate_matrix matr = Inr (mk D (\<lambda>p. entry matr (cw_src (int D) p)))"
  using rotate_matrix_mk [of D "entry matr"] by (simp only: mk_entry [OF assms])

lemma inside_cw_src: "inside D p \<Longrightarrow> inside D (cw_src (int D) p)"
  by (auto simp: inside_def cw_src_def)

lemma cw_src_four: "cw_src d (cw_src d (cw_src d (cw_src d p))) = p"
  by (simp add: cw_src_def)

lemma clockwise_mk:
  assumes "square D matr"
  shows "clockwise matr = mk D (\<lambda>p. entry matr (cw_src (int D) p))"
proof -
  have D: "length matr = D" using assms by (simp add: square_def)
  have "matr ! (D - 1 - j) ! i = entry matr (cw_src (int D) (int i, int j))"
    if "i < D" "j < D" for i j
  proof -
    have "nat (int D - 1 - int j) = D - 1 - j" using that by linarith
    then show ?thesis by (simp add: entry_def cw_src_def)
  qed
  then show ?thesis
    unfolding clockwise_def mk_def D by (intro map_cong refl) simp
qed

subsection \<open>The cells of a ring\<close>

lemma mem_ring:
  "(r, c) \<in> set (ring lo hi) \<longleftrightarrow>
     (r = lo \<and> lo \<le> c \<and> c \<le> hi) \<or> (c = hi \<and> lo + 1 \<le> r \<and> r \<le> hi) \<or>
     (r = hi \<and> lo \<le> c \<and> c \<le> hi - 1) \<or> (c = lo \<and> lo + 1 \<le> r \<and> r \<le> hi - 1)"
proof -
  have e: "(\<exists>x\<in>{a..b}. r = l \<and> c = x) \<longleftrightarrow> r = l \<and> a \<le> c \<and> c \<le> b"
    "(\<exists>x\<in>{a..b}. r = x \<and> c = l) \<longleftrightarrow> c = l \<and> a \<le> r \<and> r \<le> b" for a b l :: int
    by auto
  show ?thesis
    unfolding ring_def set_append set_map set_rev set_upto Un_iff image_iff prod.inject e
    by blast
qed

lemma set_ring:
  assumes "lo < hi"
  shows "p \<in> set (ring lo hi) \<longleftrightarrow> within (lo - 1) (hi + 1) p \<and> \<not> within lo hi p"
proof -
  obtain r c where p: "p = (r, c)" by (cases p)
  have b: "within (lo - 1) (hi + 1) (r, c) \<and> \<not> within lo hi (r, c) \<longleftrightarrow>
        (lo \<le> r \<and> r \<le> hi \<and> lo \<le> c \<and> c \<le> hi) \<and> (r = lo \<or> r = hi \<or> c = lo \<or> c = hi)"
    unfolding within_def fst_conv snd_conv by linarith
  have 2: "(c = hi \<and> lo + 1 \<le> r \<and> r \<le> hi) \<longleftrightarrow> (c = hi \<and> lo \<le> r \<and> r \<le> hi \<and> r \<noteq> lo)"
    by linarith
  have 3: "(r = hi \<and> lo \<le> c \<and> c \<le> hi - 1) \<longleftrightarrow> (r = hi \<and> lo \<le> c \<and> c \<le> hi \<and> c \<noteq> hi)"
    by linarith
  have 4: "(c = lo \<and> lo + 1 \<le> r \<and> r \<le> hi - 1) \<longleftrightarrow>
           (c = lo \<and> lo \<le> r \<and> r \<le> hi \<and> r \<noteq> lo \<and> r \<noteq> hi)"
    by linarith
  have lh: "lo \<le> hi" using assms by simp
  show ?thesis unfolding p mem_ring b 2 3 4 using lh by blast
qed

lemma distinct_ring: "distinct (ring lo hi)"
proof -
  have inj: "inj_on (\<lambda>i. (a, i)) A" "inj_on (\<lambda>i. (i, a)) A" for a :: int and A
    by (simp_all add: inj_on_def)
  have d: "distinct (map (\<lambda>i. (lo, i)) [lo..hi])" "distinct (map (\<lambda>i. (i, hi)) [lo + 1..hi])"
    "distinct (map (\<lambda>i. (hi, i)) (rev [lo..hi - 1]))"
    "distinct (map (\<lambda>i. (i, lo)) (rev [lo + 1..hi - 1]))"
    by (simp_all add: distinct_map inj)
  have 1: "set (map (\<lambda>i. (lo, i)) [lo..hi]) \<inter> set (map (\<lambda>i. (i, hi)) [lo + 1..hi]) = {}"
    by auto
  have 2: "set (map (\<lambda>i. (lo, i)) [lo..hi]) \<inter> set (map (\<lambda>i. (hi, i)) (rev [lo..hi - 1])) = {}"
    by auto
  have 3: "set (map (\<lambda>i. (lo, i)) [lo..hi]) \<inter> set (map (\<lambda>i. (i, lo)) (rev [lo + 1..hi - 1])) = {}"
    by auto
  have 4: "set (map (\<lambda>i. (i, hi)) [lo + 1..hi]) \<inter> set (map (\<lambda>i. (hi, i)) (rev [lo..hi - 1])) = {}"
    by auto
  have 5: "set (map (\<lambda>i. (i, hi)) [lo + 1..hi]) \<inter> set (map (\<lambda>i. (i, lo)) (rev [lo + 1..hi - 1])) = {}"
    by auto
  have 6: "set (map (\<lambda>i. (hi, i)) (rev [lo..hi - 1])) \<inter> set (map (\<lambda>i. (i, lo)) (rev [lo + 1..hi - 1])) = {}"
    by auto
  show ?thesis
    unfolding ring_def distinct_append set_append Int_Un_distrib Int_Un_distrib2
    using d 1 2 3 4 5 6 by (simp only: Un_empty simp_thms)
qed

lemma ring_inside:
  assumes "0 \<le> lo" "lo < hi" "hi < int D" "p \<in> set (ring lo hi)"
  shows "inside D p"
proof -
  have "within (lo - 1) (hi + 1) p" using assms(2,4) by (simp add: set_ring)
  then show ?thesis using assms(1,3) unfolding within_def inside_def by linarith
qed

subsection \<open>The entries as a multiset\<close>

lemma concat_mk: "concat (mk D f) = map f (cells D)"
  by (simp add: mk_def cells_def map_concat comp_def)

lemma set_cells: "set (cells D) = {p. inside D p}"
proof (rule set_eqI)
  fix p :: coord
  obtain r c where p: "p = (r, c)" by (cases p)
  have "(\<exists>i<D. \<exists>j<D. r = int i \<and> c = int j) \<longleftrightarrow> 0 \<le> r \<and> r < int D \<and> 0 \<le> c \<and> c < int D"
  proof
    assume "0 \<le> r \<and> r < int D \<and> 0 \<le> c \<and> c < int D"
    then have "nat r < D \<and> nat c < D \<and> r = int (nat r) \<and> c = int (nat c)" by linarith
    then show "\<exists>i<D. \<exists>j<D. r = int i \<and> c = int j" by blast
  qed auto
  moreover have "(r, c) \<in> set (cells D) \<longleftrightarrow> (\<exists>i<D. \<exists>j<D. r = int i \<and> c = int j)"
    by (force simp: cells_def image_iff Bex_def)
  ultimately show "p \<in> set (cells D) \<longleftrightarrow> p \<in> {p. inside D p}"
    by (simp add: inside_def p)
qed

lemma distinct_cells: "distinct (cells D)"
  unfolding cells_def
proof (rule distinct_concat)
  show "distinct (map (\<lambda>r. map (\<lambda>c. (int r, int c)) [0..<D]) [0..<D])"
  proof (cases "D = 0")
    case False
    then have "inj_on (\<lambda>r. map (\<lambda>c. (int r, int c)) [0..<D]) (set [0..<D])"
      by (auto simp: inj_on_def map_eq_conv)
    then show ?thesis by (simp add: distinct_map)
  qed simp
next
  fix ys assume "ys \<in> set (map (\<lambda>r. map (\<lambda>c. (int r, int c)) [0..<D]) [0..<D])"
  then show "distinct ys" by (auto simp: distinct_map inj_on_def)
next
  fix ys zs
  assume "ys \<in> set (map (\<lambda>r. map (\<lambda>c. (int r, int c)) [0..<D]) [0..<D])"
    "zs \<in> set (map (\<lambda>r. map (\<lambda>c. (int r, int c)) [0..<D]) [0..<D])" "ys \<noteq> zs"
  then show "set ys \<inter> set zs = {}" by auto
qed

lemma cw_src_image: "cw_src (int D) ` {p. inside D p} = {p. inside D p}"
proof (intro equalityI subsetI)
  fix p assume "p \<in> cw_src (int D) ` {p. inside D p}"
  then show "p \<in> {p. inside D p}" by (auto intro: inside_cw_src)
next
  fix p assume "p \<in> {p. inside D p}"
  then have "inside D (cw_src (int D) (cw_src (int D) (cw_src (int D) p)))"
    by (simp add: inside_cw_src)
  moreover have "p = cw_src (int D) (cw_src (int D) (cw_src (int D) (cw_src (int D) p)))"
    by (simp add: cw_src_four)
  ultimately show "p \<in> cw_src (int D) ` {p. inside D p}" by blast
qed

lemma cw_src_inj: "inj_on (cw_src d) A"
  by (auto simp: inj_on_def cw_src_def)

lemma mset_cells_cw: "image_mset (cw_src (int D)) (mset (cells D)) = mset (cells D)"
proof -
  have m: "mset (cells D) = mset_set {p. inside D p}"
    using mset_set_set [OF distinct_cells, of D] by (simp add: set_cells)
  show ?thesis
    unfolding m by (simp add: image_mset_mset_set [OF cw_src_inj] cw_src_image)
qed

lemma mset_rotated:
  "mset (concat (mk D (\<lambda>p. f (cw_src (int D) p)))) = mset (concat (mk D f))"
proof -
  have "mset (concat (mk D (\<lambda>p. f (cw_src (int D) p))))
        = image_mset f (image_mset (cw_src (int D)) (mset (cells D)))"
    by (simp add: concat_mk multiset.map_comp comp_def)
  also have "\<dots> = mset (concat (mk D f))"
    by (simp add: mset_cells_cw concat_mk)
  finally show ?thesis .
qed

subsection \<open>Which cycle a cell belongs to\<close>

lemma ring_hi_eq: "ring_hi dim cycle = int_half dim + cycle + odd' dim 0"
  by (simp add: ring_hi_def odd'_def)

lemma border_alt:
  "within (lo - 1) (hi + 1) p \<and> \<not> within lo hi p \<longleftrightarrow>
     (lo \<le> fst p \<and> fst p \<le> hi \<and> lo \<le> snd p \<and> snd p \<le> hi) \<and>
     (fst p = lo \<or> fst p = hi \<or> snd p = lo \<or> snd p = hi)"
  unfolding within_def by linarith

lemma level_arith:
  fixes h r c cycle e :: int
  shows "(h - cycle - 1 \<le> r \<and> r \<le> h + cycle + e \<and> h - cycle - 1 \<le> c \<and> c \<le> h + cycle + e) \<and>
         (r = h - cycle - 1 \<or> r = h + cycle + e \<or> c = h - cycle - 1 \<or> c = h + cycle + e)
         \<longleftrightarrow> max (max (h - 1 - r) (r - h - e)) (max (h - 1 - c) (c - h - e)) = cycle"
  by (auto simp: max_def)

lemma level_odd_arith:
  fixes h r c :: int
  shows "0 \<le> max (max (h - 1 - r) (r - h - 1)) (max (h - 1 - c) (c - h - 1)) \<and>
         max (max (h - 1 - r) (r - h - 1)) (max (h - 1 - c) (c - h - 1)) < h \<longleftrightarrow>
         (0 \<le> r \<and> r < 2 * h + 1 \<and> 0 \<le> c \<and> c < 2 * h + 1) \<and> \<not> (r = h \<and> c = h)"
  by (auto simp: max_def)

lemma level_even_arith:
  fixes h r c :: int
  shows "0 \<le> max (max (h - 1 - r) (r - h - 0)) (max (h - 1 - c) (c - h - 0)) \<and>
         max (max (h - 1 - r) (r - h - 0)) (max (h - 1 - c) (c - h - 0)) < h \<longleftrightarrow>
         0 \<le> r \<and> r < 2 * h \<and> 0 \<le> c \<and> c < 2 * h"
  by (auto simp: max_def)

lemma mem_cycle_border:
  assumes "0 \<le> cycle" "cycle < int_half dim" "0 \<le> dim"
  shows "p \<in> set (fst (get_cycle cycle dim)) \<longleftrightarrow>
         on_border dim (ring_lo dim cycle) p"
proof -
  note b = ring_bounds [OF assms]
  have hi: "ring_hi dim cycle = dim - 1 - ring_lo dim cycle"
    using ring_sum [OF assms(3), of cycle] by linarith
  have "p \<in> set (fst (get_cycle cycle dim)) \<longleftrightarrow>
        (ring_lo dim cycle \<le> fst p \<and> fst p \<le> ring_hi dim cycle \<and>
         ring_lo dim cycle \<le> snd p \<and> snd p \<le> ring_hi dim cycle) \<and>
        (fst p = ring_lo dim cycle \<or> fst p = ring_hi dim cycle \<or>
         snd p = ring_lo dim cycle \<or> snd p = ring_hi dim cycle)"
    by (simp only: get_cycle_ring fst_conv set_ring [OF b(2)] border_alt)
  then show ?thesis unfolding on_border_def hi by blast
qed

lemma mem_cycle_level:
  assumes "0 \<le> cycle" "cycle < int_half dim" "0 \<le> dim"
  shows "p \<in> set (fst (get_cycle cycle dim)) \<longleftrightarrow> level dim p = cycle"
proof -
  note b = ring_bounds [OF assms]
  have "p \<in> set (fst (get_cycle cycle dim)) \<longleftrightarrow>
        (ring_lo dim cycle \<le> fst p \<and> fst p \<le> ring_hi dim cycle \<and>
         ring_lo dim cycle \<le> snd p \<and> snd p \<le> ring_hi dim cycle) \<and>
        (fst p = ring_lo dim cycle \<or> fst p = ring_hi dim cycle \<or>
         snd p = ring_lo dim cycle \<or> snd p = ring_hi dim cycle)"
    by (simp only: get_cycle_ring fst_conv set_ring [OF b(2)] border_alt)
  also have "\<dots> \<longleftrightarrow> level dim p = cycle"
    unfolding ring_hi_eq ring_lo_def level_def by (rule level_arith)
  finally show ?thesis .
qed

lemma level_range:
  assumes "0 \<le> dim"
  shows "0 \<le> level dim p \<and> level dim p < int_half dim \<longleftrightarrow>
         (0 \<le> fst p \<and> fst p < dim \<and> 0 \<le> snd p \<and> snd p < dim) \<and>
         \<not> (dim mod 2 = 1 \<and> p = (dim div 2, dim div 2))"
proof -
  obtain r c where p: "p = (r, c)" by (cases p)
  show ?thesis
  proof (cases "dim mod 2 = 1")
    case True
    then have d: "2 * (dim div 2) + 1 = dim" by presburger
    have h: "int_half dim = dim div 2" "odd' dim 0 = 1"
      using assms True by (simp_all add: int_half_def odd'_def)
    show ?thesis
      using level_odd_arith [of "dim div 2" r c] True
      unfolding level_def h p fst_conv snd_conv prod.inject d by simp
  next
    case False
    then have d: "2 * (dim div 2) = dim" by presburger
    have h: "int_half dim = dim div 2" "odd' dim 0 = 0"
      using assms False by (simp_all add: int_half_def odd'_def)
    show ?thesis
      using level_even_arith [of "dim div 2" r c] False
      unfolding level_def h p fst_conv snd_conv prod.inject d by simp
  qed
qed

subsection \<open>The rounded quotient\<close>

lemma bit_length_le: "0 \<le> n \<Longrightarrow> n < 2 ^ k \<Longrightarrow> bit_length n \<le> k"
proof (induction k arbitrary: n)
  case 0
  then have "n = 0" by simp
  then show ?case by simp
next
  case (Suc k)
  show ?case
  proof (cases "n \<le> 0")
    case True
    then show ?thesis by simp
  next
    case False
    have "n div 2 < 2 ^ k" using Suc.prems by simp
    moreover have "0 \<le> n div 2" using Suc.prems by simp
    ultimately have "bit_length (n div 2) \<le> k" by (rule Suc.IH [rotated])
    then show ?thesis using False by (subst bit_length.simps) simp
  qed
qed

lemma float_half_small:
  assumes "\<bar>dim\<bar> < 2 ^ 53"
  shows "float_half dim = Inr (int_half dim)"
proof -
  have "bit_length \<bar>dim\<bar> \<le> 53" using assms by (intro bit_length_le) simp_all
  then have "float_half dim = Inr (sgn dim * (\<bar>dim\<bar> div 2))"
    by (simp add: float_half_def Let_def)
  moreover have "sgn dim * (\<bar>dim\<bar> div 2) = int_half dim"
    by (simp add: int_half_def sgn_if)
  ultimately show ?thesis by simp
qed

lemma float_half_edge:
  "float_half 9007199254740992 = Inr (int_half 9007199254740992)"
  "float_half 9007199254740993 = Inr (int_half 9007199254740993)"
  "float_half 9007199254740994 = Inr (int_half 9007199254740994)"
  "float_half (- 9007199254740992) = Inr (int_half (- 9007199254740992))"
  "float_half (- 9007199254740993) = Inr (int_half (- 9007199254740993))"
  "float_half (- 9007199254740994) = Inr (int_half (- 9007199254740994))"
  by code_simp+

lemma float_half_exact:
  assumes "\<bar>dim\<bar> < 2 ^ 53 + 3"
  shows "float_half dim = Inr (int_half dim)"
proof (cases "\<bar>dim\<bar> < 2 ^ 53")
  case True
  then show ?thesis by (rule float_half_small)
next
  case False
  then have "9007199254740992 \<le> \<bar>dim\<bar>" "\<bar>dim\<bar> < 9007199254740995"
    using assms by simp_all
  then have "dim = 9007199254740992 \<or> dim = 9007199254740993 \<or> dim = 9007199254740994 \<or>
             dim = - 9007199254740992 \<or> dim = - 9007199254740993 \<or> dim = - 9007199254740994"
    by linarith
  then show ?thesis using float_half_edge by blast
qed

lemma float_half_rounds: "float_half 9007199254740995 = Inr 4503599627370498"
  by code_simp

lemma get_cycle_float_exact:
  assumes "\<bar>dim\<bar> < 2 ^ 53 + 3"
  shows "get_cycle_float cycle dim = Inr (get_cycle cycle dim)"
  by (simp add: get_cycle_float_def get_cycle_def float_half_exact [OF assms] Let_def)

lemma get_cycle_float_large:
  "get_cycle_float 0 9007199254740995
   = Inr ([(4503599627370497, 4503599627370497), (4503599627370497, 4503599627370498),
           (4503599627370497, 4503599627370499), (4503599627370498, 4503599627370499),
           (4503599627370499, 4503599627370499), (4503599627370499, 4503599627370498),
           (4503599627370499, 4503599627370497), (4503599627370498, 4503599627370497)], 2)"
  by code_simp

subsection \<open>The loop body as a list of statements\<close>

lemma bind_res_assoc: "bind_res (bind_res m f) g = bind_res m (\<lambda>x. bind_res (f x) g)"
  by (cases m) simp_all

lemma bind_res_Inr: "bind_res m Inr = m"
  by (cases m) simp_all

lemma quartet_body_run:
  "bind_res (for_each (quartet_body n i) (exec rot) (matr, Map.empty)) (\<lambda>fr. Inr (fst fr))
   = quartet rot n i matr"
  unfolding quartet_body_def quartet_def
  by (simp add: read_place_def write_place_def bind_res_assoc bind_res_Inr)

lemma quartet_body_mk:
  assumes "getitem rot i = Inr a" "getitem rot (i + n) = Inr b"
    "getitem rot (i + 2 * n) = Inr c" "getitem rot (i + 3 * n) = Inr d"
    "inside D a" "inside D b" "inside D c" "inside D d"
  shows "for_each (quartet_body n i) (exec rot) (mk D f, Map.empty)
         = Inr (mk D (swap_cells a d (swap_cells a c (swap_cells a b f))),
                [''tmp'' \<mapsto> swap_cells a c (swap_cells a b f) d])"
  unfolding quartet_body_def swap_cells_def
  by (simp add: read_place_def write_place_def
      cell_get_mk [OF assms(1) assms(5)] cell_get_mk [OF assms(2) assms(6)]
      cell_get_mk [OF assms(3) assms(7)] cell_get_mk [OF assms(4) assms(8)]
      cell_put_mk [OF assms(1) assms(5)] cell_put_mk [OF assms(2) assms(6)]
      cell_put_mk [OF assms(3) assms(7)] cell_put_mk [OF assms(4) assms(8)])

lemma quartet_body_vars: "scratch_vars (quartet_body n i) = {''tmp''}"
  by (simp add: quartet_body_def)

lemma quartet_body_writes:
  "slot_writes (quartet_body n i) = [i + n, i, i + 2 * n, i, i + 3 * n, i]"
  by (simp add: quartet_body_def)

subsection \<open>The coordinate lists where the quotient is exact\<close>

text \<open>
  The lemmas of this subsection are about \<open>get_cycle\<close>, the lists built from the exact
  quotient. They speak of the Python function through \<open>get_cycle_float_exact\<close>, for
  dimensions below \<open>2^53 + 3\<close>.
\<close>

lemma int_half_nonneg: "0 \<le> dim \<Longrightarrow> int_half dim = dim div 2"
  by (simp add: int_half_def)

lemma get_cycle_cells:
  "0 \<le> D \<Longrightarrow>
   (\<forall>c. 0 \<le> c \<and> c < D div 2 \<longrightarrow>
      int (length (fst (get_cycle c D))) = 4 * snd (get_cycle c D) \<and>
      distinct (fst (get_cycle c D)) \<and>
      (\<forall>p \<in> set (fst (get_cycle c D)). 0 \<le> fst p \<and> fst p < D \<and> 0 \<le> snd p \<and> snd p < D)) \<and>
   (\<forall>c c'. 0 \<le> c \<and> c < D div 2 \<and> 0 \<le> c' \<and> c' < D div 2 \<and> c \<noteq> c' \<longrightarrow>
      set (fst (get_cycle c D)) \<inter> set (fst (get_cycle c' D)) = {}) \<and>
   (\<Union>c \<in> {0..<D div 2}. set (fst (get_cycle c D)))
     = {p. 0 \<le> fst p \<and> fst p < D \<and> 0 \<le> snd p \<and> snd p < D}
       - (if D mod 2 = 1 then {(D div 2, D div 2)} else {})"
proof -
  assume D: "0 \<le> D"
  note h = int_half_nonneg [OF D]
  have lev: "p \<in> set (fst (get_cycle c D)) \<longleftrightarrow> level D p = c"
    if "0 \<le> c" "c < D div 2" for c p
    using mem_cycle_level [of c D p] that D by (simp add: h)
  have one: "int (length (fst (get_cycle c D))) = 4 * snd (get_cycle c D) \<and>
      distinct (fst (get_cycle c D)) \<and>
      (\<forall>p \<in> set (fst (get_cycle c D)). 0 \<le> fst p \<and> fst p < D \<and> 0 \<le> snd p \<and> snd p < D)"
    if c: "0 \<le> c" "c < D div 2" for c
  proof -
    have c': "c < int_half D" using c by (simp add: h)
    note b = ring_bounds [OF c(1) c' D]
    have "snd (get_cycle c D) = ring_hi D c - ring_lo D c"
      using b by (intro get_cycle_size) simp
    moreover have "int (length (fst (get_cycle c D))) = 4 * (ring_hi D c - ring_lo D c)"
      using length_ring [OF b(2)] by (simp add: get_cycle_ring)
    moreover have "distinct (fst (get_cycle c D))"
      by (simp add: get_cycle_ring distinct_ring)
    moreover have "0 \<le> fst p \<and> fst p < D \<and> 0 \<le> snd p \<and> snd p < D"
      if "p \<in> set (fst (get_cycle c D))" for p
    proof -
      have "on_border D (ring_lo D c) p"
        using that mem_cycle_border [OF c(1) c' D, of p] by simp
      then show ?thesis using b(1) unfolding on_border_def by linarith
    qed
    ultimately show ?thesis by simp
  qed
  have two: "set (fst (get_cycle c D)) \<inter> set (fst (get_cycle c' D)) = {}"
    if "0 \<le> c \<and> c < D div 2 \<and> 0 \<le> c' \<and> c' < D div 2 \<and> c \<noteq> c'" for c c'
    using that lev [of c] lev [of c'] by auto
  have three: "(\<Union>c \<in> {0..<D div 2}. set (fst (get_cycle c D)))
     = {p. 0 \<le> fst p \<and> fst p < D \<and> 0 \<le> snd p \<and> snd p < D}
       - (if D mod 2 = 1 then {(D div 2, D div 2)} else {})"
  proof (rule set_eqI)
    fix p
    have "p \<in> (\<Union>c \<in> {0..<D div 2}. set (fst (get_cycle c D)))
          \<longleftrightarrow> 0 \<le> level D p \<and> level D p < D div 2"
      using lev [of _ p] by auto
    also have "\<dots> \<longleftrightarrow> (0 \<le> fst p \<and> fst p < D \<and> 0 \<le> snd p \<and> snd p < D) \<and>
         \<not> (D mod 2 = 1 \<and> p = (D div 2, D div 2))"
      using level_range [OF D, of p] by (simp add: h)
    finally show "p \<in> (\<Union>c \<in> {0..<D div 2}. set (fst (get_cycle c D))) \<longleftrightarrow>
      p \<in> {p. 0 \<le> fst p \<and> fst p < D \<and> 0 \<le> snd p \<and> snd p < D}
       - (if D mod 2 = 1 then {(D div 2, D div 2)} else {})"
      by auto
  qed
  show ?thesis using one two three by blast
qed

lemma get_cycle_0_4: "get_cycle 0 4 = ([(1, 1), (1, 2), (2, 2), (2, 1)], 1)"
  by code_simp

lemma get_cycle_1_4:
  "get_cycle 1 4
   = ([(0, 0), (0, 1), (0, 2), (0, 3), (1, 3), (2, 3), (3, 3), (3, 2), (3, 1), (3, 0), (2, 0),
       (1, 0)], 3)"
  by code_simp

lemma cycle_border:
  "1 \<le> D \<Longrightarrow> 0 \<le> cycle \<Longrightarrow> cycle < D div 2 \<Longrightarrow>
   (\<forall>p. p \<in> set (fst (get_cycle cycle D)) \<longleftrightarrow> on_border D (D div 2 - 1 - cycle) p) \<and>
   snd (get_cycle cycle D) = D - 2 * (D div 2 - 1 - cycle) - 1 \<and>
   snd (get_cycle cycle D) = 2 * cycle + 1 + D mod 2 \<and>
   (\<forall>p. p \<in> set (fst (get_cycle (D div 2 - 1) D)) \<longleftrightarrow> on_border D 0 p) \<and>
   snd (get_cycle (D div 2 - 1) D) = D - 1"
proof -
  assume D1: "1 \<le> D" and c: "0 \<le> cycle" "cycle < D div 2"
  have D: "0 \<le> D" using D1 by simp
  note h = int_half_nonneg [OF D]
  have gen: "(\<forall>p. p \<in> set (fst (get_cycle k D)) \<longleftrightarrow> on_border D (D div 2 - 1 - k) p) \<and>
             snd (get_cycle k D) = D - 2 * (D div 2 - 1 - k) - 1"
    if k: "0 \<le> k" "k < D div 2" for k
  proof -
    have k': "k < int_half D" using k by (simp add: h)
    note b = ring_bounds [OF k(1) k' D]
    have lo: "ring_lo D k = D div 2 - 1 - k" by (simp add: ring_lo_def h)
    have "snd (get_cycle k D) = ring_hi D k - ring_lo D k"
      using b by (intro get_cycle_size) simp
    then have "snd (get_cycle k D) = D - 2 * ring_lo D k - 1"
      using ring_sum [OF D, of k] by linarith
    then have "snd (get_cycle k D) = D - 2 * (D div 2 - 1 - k) - 1"
      by (simp only: lo)
    then show ?thesis using mem_cycle_border [OF k(1) k' D] by (simp add: lo)
  qed
  have "D - 2 * (D div 2 - 1 - cycle) - 1 = 2 * cycle + 1 + D mod 2"
    by (simp add: algebra_simps)
  moreover have "0 \<le> D div 2 - 1" "D div 2 - 1 < D div 2" using c by simp_all
  ultimately show ?thesis using gen [of cycle] gen [of "D div 2 - 1"] c by simp
qed

lemma cycle_upper_side:
  "1 \<le> D \<Longrightarrow> 0 \<le> c \<Longrightarrow> c < D div 2 \<Longrightarrow>
   take (length (upper_side c D)) (fst (get_cycle c D)) = upper_side c D \<and>
   snd (get_cycle c D) = int (length (upper_side c D)) - 1 \<and>
   fst (get_cycle c D) ! length (upper_side c D)
     = (D div 2 - c, D div 2 + c + (if D mod 2 = 1 then 1 else 0))"
proof -
  assume D1: "1 \<le> D" and c: "0 \<le> c" "c < D div 2"
  have D: "0 \<le> D" using D1 by simp
  note h = int_half_nonneg [OF D]
  have o: "odd' D c = c + (if D mod 2 = 1 then 1 else 0)"
    by (simp add: odd'_def)
  define lo where "lo = D div 2 - c - 1"
  define hi where "hi = D div 2 + c + (if D mod 2 = 1 then 1 else 0)"
  have lh: "lo < hi" using c by (simp add: lo_def hi_def)
  have u: "upper_side c D = map (\<lambda>j. (lo, j)) [lo..hi]"
    by (simp add: upper_side_def lo_def hi_def add.assoc)
  have g: "get_cycle c D
           = (map (\<lambda>j. (lo, j)) [lo..hi] @ map (\<lambda>i. (i, hi)) [lo + 1..hi] @
              map (\<lambda>i. (hi, i)) (rev [lo..hi - 1]) @ map (\<lambda>i. (i, lo)) (rev [lo + 1..hi - 1]),
              int (length [lo..hi]) - 1)"
    unfolding get_cycle_ring ring_def ring_lo_def ring_hi_def h o lo_def hi_def
    by (simp add: add.assoc)
  have r: "[lo + 1..hi] = (lo + 1) # [lo + 1 + 1..hi]"
    using lh by (simp add: upto_rec1)
  have "(map (\<lambda>j. (lo, j)) [lo..hi] @ map (\<lambda>i. (i, hi)) ((lo + 1) # [lo + 1 + 1..hi]) @ rest)
          ! length (map (\<lambda>j. (lo, j)) [lo..hi]) = (lo + 1, hi)" for rest
    by (simp only: list.map append_Cons nth_append_length)
  then have "fst (get_cycle c D) ! length (upper_side c D) = (lo + 1, hi)"
    unfolding g u fst_conv r [symmetric] .
  moreover have "lo + 1 = D div 2 - c" by (simp add: lo_def)
  ultimately show ?thesis unfolding g u by (simp add: hi_def del: length_upto)
qed

lemma get_cycle_0_2: "get_cycle 0 2 = ([(0, 0), (0, 1), (1, 1), (1, 0)], 1)"
  by code_simp

lemma quartet_1234:
  "quartet [(0, 0), (0, 1), (1, 1), (1, 0)] 1 0 [[1, 2], [4, 3 :: int]] = Inr [[4, 1], [3, 2]]"
  by code_simp

section \<open>Results\<close>

subsection \<open>The coordinate lists of \<open>get_cycle\<close>\<close>

text \<open>
  Claim C3, as stated, for every \<open>D \<ge> 0\<close>: the cells of the coordinate lists of all cycles
  together are the cells of the matrix, without the centre when \<open>D\<close> is odd. For the odd side
  \<open>D = 2^53 + 3\<close> the quotient \<open>dim/2\<close> is rounded up, and the list of cycle 0 begins with the
  centre \<open>(D div 2, D div 2)\<close>.
\<close>

theorem get_cycle_decomposition_counterexample:
  "(9007199254740995 :: int) mod 2 = 1 \<and> (0 :: int) < 9007199254740995 div 2 \<and>
   get_cycle_float 0 9007199254740995
   = Inr ((9007199254740995 div 2, 9007199254740995 div 2) #
          [(4503599627370497, 4503599627370498), (4503599627370497, 4503599627370499),
           (4503599627370498, 4503599627370499), (4503599627370499, 4503599627370499),
           (4503599627370499, 4503599627370498), (4503599627370499, 4503599627370497),
           (4503599627370498, 4503599627370497)], 2)"
  by (simp add: get_cycle_float_large)

text \<open>
  Claim C3, amended: for a side \<open>D\<close> with \<open>0 \<le> D < 2^53 + 3\<close>, where \<open>int(dim/2)\<close> is exact,
  \<open>get_cycle\<close> returns for every cycle \<open>c\<close> with \<open>0 \<le> c < D div 2\<close> a coordinate list of
  \<open>4 * size\<close> elements, \<open>size\<close> being the second component of the result; its elements are
  pairwise distinct and lie in \<open>[0, D) \<times> [0, D)\<close>; the lists of two different cycles share no
  cell; and the cells of all the lists together are the cells of the matrix, without the centre
  \<open>(D div 2, D div 2)\<close> when \<open>D\<close> is odd.
\<close>

theorem get_cycle_decomposition:
  "0 \<le> D \<Longrightarrow> D < 2 ^ 53 + 3 \<Longrightarrow>
   (\<forall>c. get_cycle_float c D = Inr (get_cycle c D)) \<and>
   (\<forall>c. 0 \<le> c \<and> c < D div 2 \<longrightarrow>
      int (length (fst (get_cycle c D))) = 4 * snd (get_cycle c D) \<and>
      distinct (fst (get_cycle c D)) \<and>
      (\<forall>p \<in> set (fst (get_cycle c D)). 0 \<le> fst p \<and> fst p < D \<and> 0 \<le> snd p \<and> snd p < D)) \<and>
   (\<forall>c c'. 0 \<le> c \<and> c < D div 2 \<and> 0 \<le> c' \<and> c' < D div 2 \<and> c \<noteq> c' \<longrightarrow>
      set (fst (get_cycle c D)) \<inter> set (fst (get_cycle c' D)) = {}) \<and>
   (\<Union>c \<in> {0..<D div 2}. set (fst (get_cycle c D)))
     = {p. 0 \<le> fst p \<and> fst p < D \<and> 0 \<le> snd p \<and> snd p < D}
       - (if D mod 2 = 1 then {(D div 2, D div 2)} else {})"
proof -
  assume D: "0 \<le> D" "D < 2 ^ 53 + 3"
  then have "\<bar>D\<bar> < 2 ^ 53 + 3" by simp
  then have "get_cycle_float c D = Inr (get_cycle c D)" for c
    by (rule get_cycle_float_exact)
  then show ?thesis using get_cycle_cells [OF D(1)] by blast
qed

theorem get_cycle_decomposition_witness:
  "(0 :: int) \<le> 5 \<and> (5 :: int) < 2 ^ 53 + 3 \<and> (0 :: int) \<le> 1 \<and> (1 :: int) < 5 div 2 \<and>
   get_cycle_float 1 5 = Inr (get_cycle 1 5) \<and>
   int (length (fst (get_cycle 1 5))) = 4 * snd (get_cycle 1 5) \<and>
   distinct (fst (get_cycle 1 5)) \<and>
   (0, 4) \<in> set (fst (get_cycle 1 5)) \<and>
   (0 :: int) \<le> 0 \<and> (0 :: int) < 5 div 2 \<and> (0 :: int) \<noteq> 1 \<and>
   set (fst (get_cycle 0 5)) \<inter> set (fst (get_cycle 1 5)) = {} \<and>
   (\<Union>c \<in> {0..<5 div 2}. set (fst (get_cycle c 5)))
     = {p. 0 \<le> fst p \<and> fst p < 5 \<and> 0 \<le> snd p \<and> snd p < 5} - {(2, 2)}"
proof -
  have m: "(0, 4) \<in> set (fst (get_cycle 1 5))" by code_simp
  have d: "(5 :: int) div 2 = 2" "(5 :: int) mod 2 = 1" by simp_all
  have "(0 :: int) \<le> 0 \<and> (0 :: int) < 5 div 2 \<and> (0 :: int) \<le> 1 \<and> (1 :: int) < 5 div 2 \<and>
        (0 :: int) \<noteq> 1" by simp
  then show ?thesis
    using get_cycle_decomposition [of 5] m d by (simp del: Diff_insert0 Diff_empty)
qed

text \<open>
  Claim C4, as stated: cycle number \<open>cycle\<close> is the border number \<open>cycle\<close> counted inwards from
  the outer edge, and the returned size is \<open>D - 2 * cycle - 1\<close>. For \<open>D = 4\<close> the cycle 0 is the
  inner border of four cells and its size is 1, not 3. For \<open>D = 2^53 + 3\<close> the quotient
  \<open>dim/2\<close> is rounded up, and the list of cycle 0 holds the cell in row and column
  \<open>D div 2 + 2\<close>, which is not on the innermost border, the one of number \<open>D div 2 - 1\<close>
  counted inwards.
\<close>

theorem get_cycle_size_counterexample:
  "get_cycle_float 0 4 = Inr ([(1, 1), (1, 2), (2, 2), (2, 1)], 1) \<and>
   (1 :: int) \<noteq> 4 - 2 * 0 - 1 \<and> \<not> on_border 4 0 (1, 1) \<and>
   get_cycle_float 0 9007199254740995
   = Inr ([(4503599627370497, 4503599627370497), (4503599627370497, 4503599627370498),
           (4503599627370497, 4503599627370499), (4503599627370498, 4503599627370499),
           (4503599627370499, 4503599627370499), (4503599627370499, 4503599627370498),
           (4503599627370499, 4503599627370497), (4503599627370498, 4503599627370497)], 2) \<and>
   \<not> on_border 9007199254740995 (9007199254740995 div 2 - 1 - 0)
       (4503599627370499, 4503599627370499)"
proof -
  have "get_cycle_float 0 4 = Inr (get_cycle 0 4)"
    by (rule get_cycle_float_exact) simp
  then show ?thesis
    by (simp add: get_cycle_0_4 get_cycle_float_large on_border_def)
qed

text \<open>
  Claim C4, amended: the cycles are counted outwards from the middle, and the side is below
  \<open>2^53 + 3\<close>, where \<open>int(dim/2)\<close> is exact. For \<open>1 \<le> D < 2^53 + 3\<close> and
  \<open>0 \<le> cycle < D div 2\<close> the cells of the list that \<open>get_cycle\<close> returns are the cells of the
  border number \<open>D div 2 - 1 - cycle\<close> counted inwards from the outer edge, and the returned
  size is \<open>2 * cycle + 1 + D mod 2\<close>, that is \<open>D - 2 * k - 1\<close> for that border number \<open>k\<close>. The
  outermost border is the one of the last cycle, \<open>D div 2 - 1\<close>, with size \<open>D - 1\<close>.
\<close>

theorem get_cycle_border:
  "1 \<le> D \<Longrightarrow> D < 2 ^ 53 + 3 \<Longrightarrow> 0 \<le> cycle \<Longrightarrow> cycle < D div 2 \<Longrightarrow>
   get_cycle_float cycle D = Inr (get_cycle cycle D) \<and>
   get_cycle_float (D div 2 - 1) D = Inr (get_cycle (D div 2 - 1) D) \<and>
   (\<forall>p. p \<in> set (fst (get_cycle cycle D)) \<longleftrightarrow> on_border D (D div 2 - 1 - cycle) p) \<and>
   snd (get_cycle cycle D) = D - 2 * (D div 2 - 1 - cycle) - 1 \<and>
   snd (get_cycle cycle D) = 2 * cycle + 1 + D mod 2 \<and>
   (\<forall>p. p \<in> set (fst (get_cycle (D div 2 - 1) D)) \<longleftrightarrow> on_border D 0 p) \<and>
   snd (get_cycle (D div 2 - 1) D) = D - 1"
proof -
  assume D: "1 \<le> D" "D < 2 ^ 53 + 3" and c: "0 \<le> cycle" "cycle < D div 2"
  from D have "\<bar>D\<bar> < 2 ^ 53 + 3" by simp
  then have "get_cycle_float k D = Inr (get_cycle k D)" for k
    by (rule get_cycle_float_exact)
  then show ?thesis using cycle_border [OF D(1) c] by simp
qed

theorem get_cycle_border_witness:
  "(1 :: int) \<le> 4 \<and> (4 :: int) < 2 ^ 53 + 3 \<and> (0 :: int) \<le> 0 \<and> (0 :: int) < 4 div 2 \<and>
   get_cycle_float 0 4 = Inr (get_cycle 0 4) \<and>
   (\<forall>p. p \<in> set (fst (get_cycle 0 4)) \<longleftrightarrow> on_border 4 1 p) \<and>
   snd (get_cycle 0 4) = 1 \<and>
   (\<forall>p. p \<in> set (fst (get_cycle 1 4)) \<longleftrightarrow> on_border 4 0 p) \<and>
   snd (get_cycle 1 4) = 3"
  using get_cycle_border [of 4 0] by simp

text \<open>
  Claim C5, as stated: the list begins with the pairs \<open>(half - c - 1, j)\<close> for \<open>j\<close> from
  \<open>half - c - 1\<close> to \<open>half + parityBump\<close>, and the size is the length of that side less 1.
  For \<open>D = 4\<close> and \<open>c = 1\<close> that side would be \<open>(0,0), (0,1), (0,2)\<close> and the size 2; the
  upper side of the list has four cells and the size is 3. For \<open>D = 2^53 + 3\<close> and \<open>c = 0\<close>
  the list begins in row \<open>half\<close>, not in row \<open>half - 1\<close>.
\<close>

theorem get_cycle_upper_side_counterexample:
  "get_cycle_float 1 4 = Inr (get_cycle 1 4) \<and>
   \<not> (take (length (claimed_upper_side 1 4)) (fst (get_cycle 1 4)) = claimed_upper_side 1 4 \<and>
      snd (get_cycle 1 4) = int (length (claimed_upper_side 1 4)) - 1) \<and>
   get_cycle_float 0 9007199254740995
   = Inr ([(4503599627370497, 4503599627370497), (4503599627370497, 4503599627370498),
           (4503599627370497, 4503599627370499), (4503599627370498, 4503599627370499),
           (4503599627370499, 4503599627370499), (4503599627370499, 4503599627370498),
           (4503599627370499, 4503599627370497), (4503599627370498, 4503599627370497)], 2) \<and>
   take (length (claimed_upper_side 0 9007199254740995))
     [(4503599627370497, 4503599627370497), (4503599627370497, 4503599627370498),
     (4503599627370497, 4503599627370499), (4503599627370498, 4503599627370499),
     (4503599627370499, 4503599627370499), (4503599627370499, 4503599627370498),
     (4503599627370499, 4503599627370497), (4503599627370498, 4503599627370497)]
   \<noteq> claimed_upper_side 0 9007199254740995"
proof -
  have "get_cycle_float 1 4 = Inr (get_cycle 1 4)"
    by (rule get_cycle_float_exact) simp
  moreover have "claimed_upper_side 0 9007199254740995
    = [(4503599627370496, 4503599627370496), (4503599627370496, 4503599627370497),
       (4503599627370496, 4503599627370498)]"
    by code_simp
  ultimately show ?thesis
    by (simp add: get_cycle_1_4 get_cycle_float_large claimed_upper_side_def [of 1])
qed

text \<open>
  Claim C5, amended: the upper side runs to column \<open>half + c + parityBump\<close>, and the side of
  the matrix is below \<open>2^53 + 3\<close>, where \<open>int(dim/2)\<close> is exact. For \<open>1 \<le> D < 2^53 + 3\<close> and
  \<open>0 \<le> c < D div 2\<close> the list that \<open>get_cycle\<close> returns begins with the pairs
  \<open>(half - c - 1, j)\<close> for \<open>j\<close> from \<open>half - c - 1\<close> to \<open>half + c + parityBump\<close>, the size is the
  length of that side less 1, and the element after it is \<open>(half - c, half + c + parityBump)\<close>,
  the first of the right side.
\<close>

theorem get_cycle_upper_side:
  "1 \<le> D \<Longrightarrow> D < 2 ^ 53 + 3 \<Longrightarrow> 0 \<le> c \<Longrightarrow> c < D div 2 \<Longrightarrow>
   get_cycle_float c D = Inr (get_cycle c D) \<and>
   take (length (upper_side c D)) (fst (get_cycle c D)) = upper_side c D \<and>
   snd (get_cycle c D) = int (length (upper_side c D)) - 1 \<and>
   fst (get_cycle c D) ! length (upper_side c D)
     = (D div 2 - c, D div 2 + c + (if D mod 2 = 1 then 1 else 0))"
proof -
  assume D: "1 \<le> D" "D < 2 ^ 53 + 3" and c: "0 \<le> c" "c < D div 2"
  from D have "\<bar>D\<bar> < 2 ^ 53 + 3" by simp
  then have "get_cycle_float c D = Inr (get_cycle c D)"
    by (rule get_cycle_float_exact)
  then show ?thesis using cycle_upper_side [OF D(1) c] by simp
qed

theorem get_cycle_upper_side_witness:
  "(1 :: int) \<le> 4 \<and> (4 :: int) < 2 ^ 53 + 3 \<and> (0 :: int) \<le> 1 \<and> (1 :: int) < 4 div 2 \<and>
   get_cycle_float 1 4 = Inr (get_cycle 1 4) \<and>
   take (length (upper_side 1 4)) (fst (get_cycle 1 4)) = upper_side 1 4 \<and>
   snd (get_cycle 1 4) = int (length (upper_side 1 4)) - 1 \<and>
   fst (get_cycle 1 4) ! length (upper_side 1 4) = (1, 3)"
  using get_cycle_upper_side [of 4 1] by simp

subsection \<open>The step on one quartet\<close>

text \<open>
  Claim C6. Let \<open>rot\<close> and \<open>n\<close> be the coordinate list and the size that \<open>get_cycle\<close> returns
  for a cycle of a square matrix, and \<open>0 \<le> i < n\<close>. The cells \<open>a = rot[i]\<close>, \<open>b = rot[i + n]\<close>,
  \<open>c = rot[i + 2n]\<close> and \<open>d = rot[i + 3n]\<close> are four different cells, and the loop body run on
  a matrix returns the matrix with the old entry of \<open>a\<close> in \<open>b\<close>, of \<open>b\<close> in \<open>c\<close>, of \<open>c\<close> in
  \<open>d\<close> and of \<open>d\<close> in \<open>a\<close>, every other cell as it was. With the entries 1, 2, 3, 4 in
  \<open>a, b, c, d\<close> the step leaves 4, 1, 2, 3 there.

  The nine assignments of the body name one local variable, \<open>tmp\<close>, and no other store; run
  as statements from a frame with no variable bound they end with the same matrix and with
  \<open>tmp\<close>, holding the old entry of \<open>d\<close>, as the only variable bound. The cells they write are,
  in order, \<open>b, a, c, a, d, a\<close>: the last statement, and so the last write, is the assignment of
  \<open>tmp\<close> to the cell \<open>a\<close>. On every argument the statements return the matrix, or raise the
  exception, that \<open>quartet\<close> does.
\<close>

theorem quartet_rotation:
  "square D matr \<Longrightarrow> 0 \<le> cycle \<Longrightarrow> cycle < int_half (int D) \<Longrightarrow>
   get_cycle cycle (int D) = (rot, n) \<Longrightarrow> 0 \<le> i \<Longrightarrow> i < n \<Longrightarrow>
   (\<exists>a b c d res.
      getitem rot i = Inr a \<and> getitem rot (i + n) = Inr b \<and>
      getitem rot (i + 2 * n) = Inr c \<and> getitem rot (i + 3 * n) = Inr d \<and>
      distinct [a, b, c, d] \<and> inside D a \<and> inside D b \<and> inside D c \<and> inside D d \<and>
      quartet rot n i matr = Inr res \<and> square D res \<and>
      for_each (quartet_body n i) (exec rot) (matr, Map.empty)
        = Inr (res, [''tmp'' \<mapsto> entry matr d]) \<and>
      entry res b = entry matr a \<and> entry res c = entry matr b \<and>
      entry res d = entry matr c \<and> entry res a = entry matr d \<and>
      (\<forall>p. inside D p \<and> p \<notin> {a, b, c, d} \<longrightarrow> entry res p = entry matr p)) \<and>
   scratch_vars (quartet_body n i) = {''tmp''} \<and>
   slot_writes (quartet_body n i) = [i + n, i, i + 2 * n, i, i + 3 * n, i] \<and>
   last (quartet_body n i) = Assign (Slot i) (Scratch ''tmp'') \<and>
   (\<forall>rot' matr'.
      bind_res (for_each (quartet_body n i) (exec rot') (matr', Map.empty)) (\<lambda>fr. Inr (fst fr))
      = quartet rot' n i (matr' :: 'a matrix)) \<and>
   quartet (fst (get_cycle 0 2)) (snd (get_cycle 0 2)) 0 [[1, 2], [4, 3 :: int]]
     = Inr [[4, 1], [3, 2]]"
proof -
  assume sq: "square D matr" and c: "0 \<le> cycle" "cycle < int_half (int D)"
    and g: "get_cycle cycle (int D) = (rot, n)" and i: "0 \<le> i" "i < n"
  define lo hi where "lo = ring_lo (int D) cycle" and "hi = ring_hi (int D) cycle"
  note b = ring_bounds [OF c, simplified, folded lo_def hi_def]
  have rot: "rot = ring lo hi" and n: "n = hi - lo"
    using g b by (simp_all add: get_cycle_ring lo_def hi_def)
  have i': "i < hi - lo" using i n by simp
  define a b c d where abcd: "a = (lo, lo + i)" "b = (lo + i, hi)" "c = (hi, hi - i)"
    "d = (hi - i, lo)"
  note gi = getitem_ring [OF i(1) i', folded abcd n rot]
  note ne = quartet_distinct [OF i(1) i', folded abcd]
  have ins: "inside D a" "inside D b" "inside D c" "inside D d"
    using b i i' by (simp_all add: inside_def abcd)
  define f where "f = entry matr"
  define f' where "f' = f(b := f a, c := f b, d := f c, a := f d)"
  have m: "matr = mk D f" by (simp add: f_def mk_entry [OF sq])
  have q: "quartet rot n i matr = Inr (mk D f')"
    using quartet_mk [OF gi ins, of f] by (simp only: swap_cells_thrice [OF ne] m f'_def)
  have "swap_cells a c (swap_cells a b f) d = f d"
    using ne by (simp add: swap_cells_def)
  then have r: "for_each (quartet_body n i) (exec rot) (matr, Map.empty)
                = Inr (mk D f', [''tmp'' \<mapsto> f d])"
    using quartet_body_mk [OF gi ins, of f] by (simp only: swap_cells_thrice [OF ne] m f'_def)
  have l: "last (quartet_body n i) = Assign (Slot i) (Scratch ''tmp'')"
    by (simp add: quartet_body_def)
  have e: "entry (mk D f') p = f' p" if "inside D p" for p
    using that by (rule entry_mk)
  have fe: "f' b = f a" "f' c = f b" "f' d = f c" "f' a = f d"
    using ne by (simp_all add: f'_def)
  have en: "entry (mk D f') b = entry matr a" "entry (mk D f') c = entry matr b"
    "entry (mk D f') d = entry matr c" "entry (mk D f') a = entry matr d"
    by (simp_all add: e ins fe f_def [symmetric])
  have rest: "\<forall>p. inside D p \<and> p \<notin> {a, b, c, d} \<longrightarrow> entry (mk D f') p = entry matr p"
  proof (intro allI impI)
    fix p assume p: "inside D p \<and> p \<notin> {a, b, c, d}"
    then have "f' p = f p" by (simp add: f'_def)
    then show "entry (mk D f') p = entry matr p" using p by (simp add: e f_def)
  qed
  have di: "distinct [a, b, c, d]" using ne by simp
  have r': "for_each (quartet_body n i) (exec rot) (matr, Map.empty)
            = Inr (mk D f', [''tmp'' \<mapsto> entry matr d])"
    using r by (simp only: f_def)
  have sqr: "square D (mk D f')" by (rule square_mk)
  have "getitem rot i = Inr a \<and> getitem rot (i + n) = Inr b \<and>
      getitem rot (i + 2 * n) = Inr c \<and> getitem rot (i + 3 * n) = Inr d \<and>
      distinct [a, b, c, d] \<and> inside D a \<and> inside D b \<and> inside D c \<and> inside D d \<and>
      quartet rot n i matr = Inr (mk D f') \<and> square D (mk D f') \<and>
      for_each (quartet_body n i) (exec rot) (matr, Map.empty)
        = Inr (mk D f', [''tmp'' \<mapsto> entry matr d]) \<and>
      entry (mk D f') b = entry matr a \<and> entry (mk D f') c = entry matr b \<and>
      entry (mk D f') d = entry matr c \<and> entry (mk D f') a = entry matr d \<and>
      (\<forall>p. inside D p \<and> p \<notin> {a, b, c, d} \<longrightarrow> entry (mk D f') p = entry matr p)"
    by (intro conjI gi di ins q sqr r' en rest)
  then have ex: "\<exists>a b c d res.
      getitem rot i = Inr a \<and> getitem rot (i + n) = Inr b \<and>
      getitem rot (i + 2 * n) = Inr c \<and> getitem rot (i + 3 * n) = Inr d \<and>
      distinct [a, b, c, d] \<and> inside D a \<and> inside D b \<and> inside D c \<and> inside D d \<and>
      quartet rot n i matr = Inr res \<and> square D res \<and>
      for_each (quartet_body n i) (exec rot) (matr, Map.empty)
        = Inr (res, [''tmp'' \<mapsto> entry matr d]) \<and>
      entry res b = entry matr a \<and> entry res c = entry matr b \<and>
      entry res d = entry matr c \<and> entry res a = entry matr d \<and>
      (\<forall>p. inside D p \<and> p \<notin> {a, b, c, d} \<longrightarrow> entry res p = entry matr p)"
    by (intro exI)
  have run: "\<forall>rot' matr'.
      bind_res (for_each (quartet_body n i) (exec rot') (matr', Map.empty)) (\<lambda>fr. Inr (fst fr))
      = quartet rot' n i (matr' :: 'a matrix)"
    by (intro allI quartet_body_run)
  have ex1234: "quartet (fst (get_cycle 0 2)) (snd (get_cycle 0 2)) 0 [[1, 2], [4, 3 :: int]]
     = Inr [[4, 1], [3, 2]]"
    by (simp only: get_cycle_0_2 fst_conv snd_conv quartet_1234)
  show ?thesis
    by (intro conjI ex quartet_body_vars quartet_body_writes l run ex1234)
qed

theorem quartet_rotation_witness:
  "square 2 [[1, 2], [4, 3 :: int]] \<and> (0 :: int) \<le> 0 \<and> 0 < int_half (int 2) \<and>
   get_cycle 0 (int 2) = ([(0, 0), (0, 1), (1, 1), (1, 0)], 1) \<and> (0 :: int) < 1 \<and>
   (\<exists>a b c d res.
      getitem [(0, 0), (0, 1), (1, 1), (1, 0)] 0 = Inr a \<and>
      getitem [(0, 0), (0, 1), (1, 1), (1, 0)] (0 + 1) = Inr b \<and>
      getitem [(0, 0), (0, 1), (1, 1), (1, 0)] (0 + 2 * 1) = Inr c \<and>
      getitem [(0, 0), (0, 1), (1, 1), (1, 0)] (0 + 3 * 1) = Inr d \<and>
      distinct [a, b, c, d] \<and> inside 2 a \<and> inside 2 b \<and> inside 2 c \<and> inside 2 d \<and>
      quartet [(0, 0), (0, 1), (1, 1), (1, 0)] 1 0 [[1, 2], [4, 3 :: int]] = Inr res \<and>
      square 2 res \<and>
      for_each (quartet_body 1 0) (exec [(0, 0), (0, 1), (1, 1), (1, 0)])
        ([[1, 2], [4, 3 :: int]], Map.empty)
        = Inr (res, [''tmp'' \<mapsto> entry [[1, 2], [4, 3]] d]) \<and>
      entry res b = entry [[1, 2], [4, 3]] a \<and> entry res c = entry [[1, 2], [4, 3]] b \<and>
      entry res d = entry [[1, 2], [4, 3]] c \<and> entry res a = entry [[1, 2], [4, 3]] d \<and>
      (\<forall>p. inside 2 p \<and> p \<notin> {a, b, c, d} \<longrightarrow> entry res p = entry [[1, 2], [4, 3]] p))"
proof -
  have sq: "square 2 [[1, 2], [4, 3 :: int]]" by (simp add: square_def)
  have h: "0 < int_half (int 2)" by (simp add: int_half_def)
  have g: "get_cycle 0 (int 2) = ([(0, 0), (0, 1), (1, 1), (1, 0)], 1)"
    by (simp add: get_cycle_0_2)
  have z: "(0 :: int) \<le> 0" "(0 :: int) < 1" by simp_all
  note t = quartet_rotation [OF sq z(1) h g z(1) z(2)]
  show ?thesis
    by (intro conjI sq z h g conjunct1 [OF t])
qed

subsection \<open>The rotation as a whole\<close>

lemma rotate_matrix_3x3:
  "rotate_matrix [[1, 2, 3], [4, 5, 6], [7, 8, 9 :: int]] = Inr [[7, 4, 1], [8, 5, 2], [9, 6, 3]]"
  by code_simp

lemma rotate_matrix_2x2: "rotate_matrix [[1, 2], [3, 4 :: int]] = Inr [[3, 1], [4, 2]]"
  by code_simp

text \<open>
  Claim C1. For every square matrix of side \<open>D\<close>, \<open>rotate_matrix\<close> returns without an
  exception a square matrix of side \<open>D\<close> whose entry in row \<open>i\<close> and column \<open>j\<close> is the
  argument's entry in row \<open>D - 1 - j\<close> and column \<open>i\<close>: the argument turned clockwise by a
  quarter turn. The two worked examples of sides 3 and 2 come out as documented.
\<close>

theorem rotate_matrix_clockwise:
  "square D matr \<Longrightarrow>
   (\<exists>res. rotate_matrix matr = Inr res \<and> square D res \<and>
      (\<forall>i<D. \<forall>j<D. res ! i ! j = matr ! (D - 1 - j) ! i)) \<and>
   rotate_matrix [[1, 2, 3], [4, 5, 6], [7, 8, 9 :: int]] = Inr [[7, 4, 1], [8, 5, 2], [9, 6, 3]] \<and>
   rotate_matrix [[1, 2], [3, 4 :: int]] = Inr [[3, 1], [4, 2]]"
proof -
  assume sq: "square D matr"
  let ?res = "mk D (\<lambda>p. entry matr (cw_src (int D) p))"
  have "?res ! i ! j = matr ! (D - 1 - j) ! i" if "i < D" "j < D" for i j
  proof -
    have "nat (int D - 1 - int j) = D - 1 - j" using that by linarith
    then show ?thesis using that by (simp add: nth_nth_mk entry_def cw_src_def)
  qed
  then have "rotate_matrix matr = Inr ?res \<and> square D ?res \<and>
      (\<forall>i<D. \<forall>j<D. ?res ! i ! j = matr ! (D - 1 - j) ! i)"
    using rotate_matrix_square [OF sq] by simp
  then show ?thesis using rotate_matrix_3x3 rotate_matrix_2x2 by blast
qed

theorem rotate_matrix_clockwise_witness:
  "square 2 [[1, 2], [3, 4 :: int]] \<and>
   (\<exists>res. rotate_matrix [[1, 2], [3, 4 :: int]] = Inr res \<and> square 2 res \<and>
      (\<forall>i<2. \<forall>j<2. res ! i ! j = [[1, 2], [3, 4]] ! (2 - 1 - j) ! i))"
proof -
  have sq: "square 2 [[1, 2], [3, 4 :: int]]" by (simp add: square_def)
  show ?thesis using sq rotate_matrix_clockwise [OF sq] by blast
qed

text \<open>
  Claim C8. A matrix of side 0 or 1 has \<open>int(dim/2) = 0\<close> cycles, so the outer loop does not
  run and the matrix is returned as it was.
\<close>

theorem rotate_matrix_small:
  "length matr \<le> 1 \<Longrightarrow> int_half (int (length matr)) = 0 \<and> rotate_matrix matr = Inr matr"
proof -
  assume "length matr \<le> 1"
  then have "int_half (int (length matr)) = 0"
    by (cases "length matr") (simp_all add: int_half_def)
  then show ?thesis by (simp add: rotate_matrix_def range_up_def)
qed

theorem rotate_matrix_small_witness:
  "length [[5 :: int]] \<le> 1 \<and> rotate_matrix [[5 :: int]] = Inr [[5]] \<and>
   length ([] :: int matrix) \<le> 1 \<and> rotate_matrix ([] :: int matrix) = Inr []"
  using rotate_matrix_small [of "[[5 :: int]]"] rotate_matrix_small [of "[] :: int matrix"]
  by simp

text \<open>
  Claim C2. Four calls of \<open>rotate_matrix\<close> in a row, each on the result of the one before,
  raise nothing and end with the matrix the first call was given.
\<close>

theorem rotate_matrix_four_times:
  "square D matr \<Longrightarrow>
   bind_res (bind_res (bind_res (rotate_matrix matr) rotate_matrix) rotate_matrix) rotate_matrix
   = Inr matr"
proof -
  assume sq: "square D matr"
  let ?cw = "cw_src (int D)"
  have "bind_res (bind_res (bind_res (rotate_matrix matr) rotate_matrix) rotate_matrix)
          rotate_matrix
        = Inr (mk D (\<lambda>p. entry matr (?cw (?cw (?cw (?cw p))))))"
    by (simp add: rotate_matrix_square [OF sq] rotate_matrix_mk)
  also have "mk D (\<lambda>p. entry matr (?cw (?cw (?cw (?cw p))))) = mk D (entry matr)"
    by (simp add: cw_src_four)
  finally show ?thesis by (simp add: mk_entry [OF sq])
qed

theorem rotate_matrix_four_times_witness:
  "square 3 [[1, 2, 3], [4, 5, 6], [7, 8, 9 :: int]] \<and>
   bind_res (bind_res (bind_res (rotate_matrix [[1, 2, 3], [4, 5, 6], [7, 8, 9 :: int]])
     rotate_matrix) rotate_matrix) rotate_matrix = Inr [[1, 2, 3], [4, 5, 6], [7, 8, 9]]"
proof -
  have sq: "square 3 [[1, 2, 3], [4, 5, 6], [7, 8, 9 :: int]]" by (simp add: square_def)
  show ?thesis using sq rotate_matrix_four_times [OF sq] by blast
qed

text \<open>
  Claim C7, as stated: the result is the argument turned counter-clockwise, its entry in row
  \<open>i\<close> and column \<open>j\<close> being the argument's entry in row \<open>j\<close> and column \<open>D - 1 - i\<close>. This
  fails on the matrix of side 2 with rows 1 2 and 3 4.
\<close>

theorem rotate_matrix_counter_clockwise_counterexample:
  "rotate_matrix [[1, 2], [3, 4 :: int]] \<noteq> Inr (counter_clockwise [[1, 2], [3, 4]])"
proof -
  have "counter_clockwise [[1, 2], [3, 4 :: int]] = [[2, 4], [1, 3]]"
    by (simp add: counter_clockwise_def upt_rec)
  then show ?thesis by (simp add: rotate_matrix_2x2)
qed

text \<open>
  Claim C7, amended: the result is the argument turned clockwise by a quarter turn, and turning
  the result counter-clockwise gives the argument back.
\<close>

theorem rotate_matrix_is_clockwise:
  "square D matr \<Longrightarrow>
   rotate_matrix matr = Inr (clockwise matr) \<and> counter_clockwise (clockwise matr) = matr"
proof -
  assume sq: "square D matr"
  let ?g = "\<lambda>p. entry matr (cw_src (int D) p)"
  have cw: "clockwise matr = mk D ?g" by (rule clockwise_mk [OF sq])
  have "mk D ?g ! j ! (D - 1 - i) = entry matr (int i, int j)" if "i < D" "j < D" for i j
  proof -
    have "int D - 1 - int (D - 1 - i) = int i" using that by linarith
    moreover have "D - 1 - i < D" using that by linarith
    ultimately show ?thesis using that by (simp add: nth_nth_mk cw_src_def)
  qed
  then have "counter_clockwise (mk D ?g) = mk D (entry matr)"
    unfolding counter_clockwise_def length_mk mk_def [of D "entry matr"]
    by (intro map_cong refl) simp
  then show ?thesis
    using rotate_matrix_square [OF sq] by (simp add: cw mk_entry [OF sq])
qed

theorem rotate_matrix_is_clockwise_witness:
  "square 2 [[1, 2], [3, 4 :: int]] \<and>
   rotate_matrix [[1, 2], [3, 4 :: int]] = Inr (clockwise [[1, 2], [3, 4]]) \<and>
   counter_clockwise (clockwise [[1, 2], [3, 4 :: int]]) = [[1, 2], [3, 4]]"
proof -
  have sq: "square 2 [[1, 2], [3, 4 :: int]]" by (simp add: square_def)
  show ?thesis using sq rotate_matrix_is_clockwise [OF sq] by blast
qed

text \<open>
  Claim C9. On a square matrix of side \<open>D\<close> the rotation returns a matrix: no subscript raises.
  Every coordinate pair that \<open>get_cycle\<close> produces for a cycle of the outer loop has its row
  and its column in \<open>[0, D)\<close>, and every subscript \<open>i + 3 * size\<close> into the coordinate list
  is a position of that list, so no subscript wraps around either. The result is a function of
  the argument alone.
\<close>

theorem rotate_matrix_total:
  "square D matr \<Longrightarrow>
   (\<exists>res. rotate_matrix matr = Inr res) \<and>
   (\<forall>cycle. 0 \<le> cycle \<and> cycle < int_half (int D) \<longrightarrow>
      (\<forall>p \<in> set (fst (get_cycle cycle (int D))). inside D p) \<and>
      (\<forall>i. 0 \<le> i \<and> i < snd (get_cycle cycle (int D)) \<longrightarrow>
         i + 3 * snd (get_cycle cycle (int D)) < int (length (fst (get_cycle cycle (int D))))))"
proof -
  assume sq: "square D matr"
  have "(\<forall>p \<in> set (fst (get_cycle cycle (int D))). inside D p) \<and>
      (\<forall>i. 0 \<le> i \<and> i < snd (get_cycle cycle (int D)) \<longrightarrow>
         i + 3 * snd (get_cycle cycle (int D)) < int (length (fst (get_cycle cycle (int D)))))"
    if c: "0 \<le> cycle" "cycle < int_half (int D)" for cycle
  proof -
    note b = ring_bounds [OF c, simplified]
    have sz: "snd (get_cycle cycle (int D)) = ring_hi (int D) cycle - ring_lo (int D) cycle"
      using b by (intro get_cycle_size) simp
    have l: "int (length (fst (get_cycle cycle (int D))))
             = 4 * (ring_hi (int D) cycle - ring_lo (int D) cycle)"
      using length_ring [OF b(2)] by (simp add: get_cycle_ring)
    have "inside D p" if "p \<in> set (fst (get_cycle cycle (int D)))" for p
      using ring_inside [OF b, of p] that by (simp add: get_cycle_ring)
    then show ?thesis unfolding sz l by simp
  qed
  then show ?thesis using rotate_matrix_square [OF sq] by blast
qed

theorem rotate_matrix_total_witness:
  "square 3 [[1, 2, 3], [4, 5, 6], [7, 8, 9 :: int]] \<and>
   (\<exists>res. rotate_matrix [[1, 2, 3], [4, 5, 6], [7, 8, 9 :: int]] = Inr res) \<and>
   (0 :: int) \<le> 0 \<and> 0 < int_half (int 3) \<and> (0, 2) \<in> set (fst (get_cycle 0 (int 3))) \<and>
   inside 3 (0, 2)"
proof -
  have sq: "square 3 [[1, 2, 3], [4, 5, 6], [7, 8, 9 :: int]]" by (simp add: square_def)
  have h: "0 < int_half (int 3)" by (simp add: int_half_def)
  have m: "(0, 2) \<in> set (fst (get_cycle 0 (int 3)))" by code_simp
  show ?thesis using sq h m rotate_matrix_total [OF sq] by blast
qed

text \<open>
  Claim C10. The result has the shape of the argument, \<open>D\<close> rows of \<open>D\<close> entries, and holds
  the same entries with the same multiplicities.
\<close>

theorem rotate_matrix_permutes:
  "square D matr \<Longrightarrow>
   \<exists>res. rotate_matrix matr = Inr res \<and> square D res \<and>
     mset (concat res) = mset (concat matr)"
proof -
  assume sq: "square D matr"
  have "mset (concat (mk D (\<lambda>p. entry matr (cw_src (int D) p)))) = mset (concat matr)"
    using mset_rotated [of D "entry matr"] by (simp only: mk_entry [OF sq])
  then show ?thesis using rotate_matrix_square [OF sq] by simp
qed

theorem rotate_matrix_permutes_witness:
  "square 2 [[1, 2], [3, 4 :: int]] \<and>
   (\<exists>res. rotate_matrix [[1, 2], [3, 4 :: int]] = Inr res \<and> square 2 res \<and>
     mset (concat res) = mset (concat [[1, 2], [3, 4]]))"
proof -
  have sq: "square 2 [[1, 2], [3, 4 :: int]]" by (simp add: square_def)
  show ?thesis using sq rotate_matrix_permutes [OF sq] by blast
qed

end
